theory Spec2Isabelle
  imports Main "HOL-Library.AList" "HOL-Library.Sublist"
begin

section \<open>The OpenCode adapter of the Ring installer\<close>

text \<open>
  This theory embeds \<^verbatim>\<open>installer/ring_installer/adapters/opencode.py\<close>.
  A Python \<^verbatim>\<open>str\<close> is a \<^typ>\<open>string\<close>: each \<^typ>\<open>char\<close> stands for the code
  point of the same number, so the model covers the texts whose code points are below 256
  (ASCII and Latin-1).  A Python \<^verbatim>\<open>dict\<close> is an association list with distinct keys in
  insertion order: \<^verbatim>\<open>d[k] = v\<close> is \<^const>\<open>AList.update\<close> (in place when the key
  exists, appended otherwise), \<^verbatim>\<open>d.pop(k, None)\<close> is \<^const>\<open>AList.delete\<close>.
\<close>

subsection \<open>Python values\<close>

text \<open>
  The values a YAML or JSON parser produces (floats and dates are left out).  In a
  \<open>PDict\<close> the keys are values too, since the code tests them with \<^verbatim>\<open>isinstance\<close>.
\<close>

datatype pyval =
    PNone
  | PBool bool
  | PInt int
  | PStr string
  | PList "pyval list"
  | PDict "(pyval \<times> pyval) list"

datatype py_error = TypeError | AttributeError | KeyError

text \<open>\<^verbatim>\<open>str.lower()\<close> on code points below 256: A-Z and the Latin-1 capitals
  (U+00C0 to U+00DE without the multiplication sign U+00D7) move up by 32.\<close>

definition lower_char :: "char \<Rightarrow> char" where
  "lower_char c =
     (let n = (of_char c :: nat)
      in if (65 \<le> n \<and> n \<le> 90) \<or> (192 \<le> n \<and> n \<le> 222 \<and> n \<noteq> 215)
         then char_of (n + 32) else c)"

definition lower :: "string \<Rightarrow> string" where
  "lower s = map lower_char s"

subsection \<open>The lookup tables\<close>

definition OPENCODE_TOOL_NAME_MAP :: "(string \<times> string) list" where
  "OPENCODE_TOOL_NAME_MAP =
    [(''Bash'', ''bash''),
     (''Read'', ''read''),
     (''Write'', ''write''),
     (''Edit'', ''edit''),
     (''List'', ''list''),
     (''Glob'', ''glob''),
     (''Grep'', ''grep''),
     (''WebFetch'', ''webfetch''),
     (''Task'', ''task''),
     (''TodoWrite'', ''todowrite''),
     (''TodoRead'', ''todoread''),
     (''MultiEdit'', ''edit''),
     (''NotebookEdit'', ''edit''),
     (''BrowseURL'', ''webfetch''),
     (''FetchURL'', ''webfetch'')]"

definition OPENCODE_MODEL_MAP :: "(string \<times> string) list" where
  "OPENCODE_MODEL_MAP =
    [(''opus'', ''anthropic/claude-opus-4-5''),
     (''sonnet'', ''anthropic/claude-sonnet-4-5''),
     (''haiku'', ''anthropic/claude-haiku-4-5''),
     (''inherit'', ''inherit'')]"

subsection \<open>\<^verbatim>\<open>_transform_tools_for_opencode\<close>\<close>

text \<open>\<^verbatim>\<open>self._OPENCODE_TOOL_NAME_MAP.get(tool, tool.lower())\<close>: an exact lookup of the
  key, and the lower-cased key when the table has no entry.\<close>

definition mapped_tool :: "string \<Rightarrow> string" where
  "mapped_tool tool =
     (case map_of OPENCODE_TOOL_NAME_MAP tool of Some m \<Rightarrow> m | None \<Rightarrow> lower tool)"

text \<open>The loop over \<^verbatim>\<open>tools.items()\<close>; the second argument is \<^verbatim>\<open>normalized\<close>.\<close>

fun tools_dict_loop :: "(pyval \<times> pyval) list \<Rightarrow> (pyval \<times> pyval) list \<Rightarrow> (pyval \<times> pyval) list" where
  "tools_dict_loop [] normalized = normalized"
| "tools_dict_loop ((PStr tool, enabled) # rest) normalized =
     tools_dict_loop rest (AList.update (PStr (mapped_tool tool)) enabled normalized)"
| "tools_dict_loop ((_, enabled) # rest) normalized = tools_dict_loop rest normalized"

text \<open>The loop over a list of tools; the second argument is \<^verbatim>\<open>normalized_list\<close>.\<close>

fun tools_list_loop :: "pyval list \<Rightarrow> pyval list \<Rightarrow> pyval list" where
  "tools_list_loop [] normalized_list = normalized_list"
| "tools_list_loop (PStr tool # rest) normalized_list =
     (let mapped = PStr (mapped_tool tool)
      in if mapped \<notin> set normalized_list
         then tools_list_loop rest (normalized_list @ [mapped])
         else tools_list_loop rest normalized_list)"
| "tools_list_loop (tool # rest) normalized_list = tools_list_loop rest (normalized_list @ [tool])"

fun transform_tools_for_opencode :: "pyval \<Rightarrow> pyval" where
  "transform_tools_for_opencode (PDict tools) = PDict (tools_dict_loop tools [])"
| "transform_tools_for_opencode (PList tools) = PList (tools_list_loop tools [])"
| "transform_tools_for_opencode tools = tools"

subsection \<open>What the tools rewrite is compared with\<close>

text \<open>The entries of a mapping whose key is a string, in order.\<close>

fun string_items :: "(pyval \<times> pyval) list \<Rightarrow> (string \<times> pyval) list" where
  "string_items [] = []"
| "string_items ((PStr k, v) # rest) = (k, v) # string_items rest"
| "string_items (_ # rest) = string_items rest"

text \<open>Those entries with each key sent through the table and the value kept.\<close>

definition mapped_items :: "(pyval \<times> pyval) list \<Rightarrow> (pyval \<times> pyval) list" where
  "mapped_items items = map (\<lambda>(k, v). (PStr (mapped_tool k), v)) (string_items items)"

text \<open>A list without the elements that occur at a smaller index.\<close>

definition first_occurrences :: "'a list \<Rightarrow> 'a list" where
  "first_occurrences xs = map snd (filter (\<lambda>(i, x). x \<notin> set (take i xs)) (enumerate 0 xs))"

fun is_PStr :: "pyval \<Rightarrow> bool" where
  "is_PStr (PStr _) = True"
| "is_PStr _ = False"

fun mapped_entry :: "pyval \<Rightarrow> pyval" where
  "mapped_entry (PStr tool) = PStr (mapped_tool tool)"
| "mapped_entry v = v"

text \<open>A list without the strings that occur at a smaller index; every other element stays.\<close>

definition dedup_names :: "pyval list \<Rightarrow> pyval list" where
  "dedup_names ys =
     map snd (filter (\<lambda>(i, y). is_PStr y \<longrightarrow> y \<notin> set (take i ys)) (enumerate 0 ys))"

definition string_keyed :: "(pyval \<times> pyval) list \<Rightarrow> (pyval \<times> pyval) list" where
  "string_keyed items = filter (\<lambda>(k, v). is_PStr k) items"

subsection \<open>\<^verbatim>\<open>_transform_frontmatter\<close> and its variants for agents and commands\<close>

type_synonym frontmatter = "(string \<times> pyval) list"

text \<open>\<^verbatim>\<open>str(n)\<close> for an integer.\<close>

fun str_nat :: "nat \<Rightarrow> string" where
  "str_nat n = (if n < 10 then [char_of (48 + n)] else str_nat (n div 10) @ [char_of (48 + n mod 10)])"

declare str_nat.simps [simp del]

definition str_int :: "int \<Rightarrow> string" where
  "str_int i = (if i < 0 then CHR ''-'' # str_nat (nat (- i)) else str_nat (nat i))"

text \<open>A list or a dict cannot be hashed: \<^verbatim>\<open>model in self._OPENCODE_MODEL_MAP\<close> raises
  \<^verbatim>\<open>TypeError\<close> for them.\<close>

fun hashable :: "pyval \<Rightarrow> bool" where
  "hashable (PList _) = False"
| "hashable (PDict _) = False"
| "hashable _ = True"

text \<open>\<^verbatim>\<open>str(model)\<close>, which the code reaches for hashable values only.\<close>

fun py_str :: "pyval \<Rightarrow> string" where
  "py_str PNone = ''None''"
| "py_str (PBool b) = (if b then ''True'' else ''False'')"
| "py_str (PInt i) = str_int i"
| "py_str (PStr s) = s"

text \<open>The keys of the model table are strings, so only a string can be found in it.\<close>

fun model_lookup :: "pyval \<Rightarrow> string option" where
  "model_lookup (PStr m) = map_of OPENCODE_MODEL_MAP m"
| "model_lookup _ = None"

definition model_step :: "frontmatter \<Rightarrow> py_error + frontmatter" where
  "model_step result =
     (case map_of result ''model'' of
        None \<Rightarrow> Inr result
      | Some model \<Rightarrow>
          if \<not> hashable model then Inl TypeError
          else (case model_lookup model of
                  Some qualified \<Rightarrow> Inr (AList.update ''model'' (PStr qualified) result)
                | None \<Rightarrow>
                    if CHR ''/'' \<notin> set (py_str model) \<and> model \<noteq> PStr ''inherit''
                    then Inr (AList.update ''model'' (PStr (''anthropic/'' @ py_str model)) result)
                    else Inr result))"

definition tools_step :: "frontmatter \<Rightarrow> frontmatter" where
  "tools_step result =
     (case map_of result ''tools'' of
        None \<Rightarrow> result
      | Some tools \<Rightarrow> AList.update ''tools'' (transform_tools_for_opencode tools) result)"

definition transform_frontmatter :: "frontmatter \<Rightarrow> py_error + frontmatter" where
  "transform_frontmatter frontmatter =
     (case model_step frontmatter of Inl e \<Rightarrow> Inl e | Inr result \<Rightarrow> Inr (tools_step result))"

text \<open>\<^verbatim>\<open>result.pop(field, None)\<close> for each field of a list.\<close>

definition drop_fields :: "string list \<Rightarrow> frontmatter \<Rightarrow> frontmatter" where
  "drop_fields fields result = fold AList.delete fields result"

definition type_step :: "frontmatter \<Rightarrow> frontmatter" where
  "type_step result =
     (case map_of result ''type'' of
        None \<Rightarrow> result
      | Some agent_type \<Rightarrow>
          (let result = AList.delete ''type'' result
           in if agent_type = PStr ''subagent'' \<and> map_of result ''mode'' = None
              then AList.update ''mode'' (PStr ''subagent'') result
              else if agent_type = PStr ''primary'' \<and> map_of result ''mode'' = None
              then AList.update ''mode'' (PStr ''primary'') result
              else result))"

definition transform_agent_frontmatter :: "frontmatter \<Rightarrow> py_error + frontmatter" where
  "transform_agent_frontmatter frontmatter =
     (case transform_frontmatter frontmatter of
        Inl e \<Rightarrow> Inl e
      | Inr result \<Rightarrow>
          Inr (drop_fields [''version'', ''last_updated'', ''changelog'', ''output_schema'']
                 (type_step result)))"

definition args_step :: "frontmatter \<Rightarrow> frontmatter" where
  "args_step result =
     (if map_of result ''args'' \<noteq> None \<and> map_of result ''argument-hint'' = None
      then AList.update ''argument-hint'' (the (map_of result ''args'')) (AList.delete ''args'' result)
      else if map_of result ''arguments'' \<noteq> None \<and> map_of result ''argument-hint'' = None
      then AList.update ''argument-hint'' (the (map_of result ''arguments'')) (AList.delete ''arguments'' result)
      else result)"

definition transform_command_frontmatter :: "frontmatter \<Rightarrow> py_error + frontmatter" where
  "transform_command_frontmatter frontmatter =
     (case transform_frontmatter frontmatter of
        Inl e \<Rightarrow> Inl e
      | Inr result \<Rightarrow> Inr (drop_fields [''name'', ''version'', ''type'', ''tags''] (args_step result)))"

subsection \<open>\<^verbatim>\<open>transform_hook\<close>\<close>

text \<open>
  \<^verbatim>\<open>s.replace(old, new)\<close>: the occurrences of \<open>old\<close> are found from the left and do not
  overlap.  With an empty \<open>old\<close>, Python puts \<open>new\<close> before every character and at the end.
\<close>

function str_replace :: "string \<Rightarrow> string \<Rightarrow> string \<Rightarrow> string" where
  "str_replace old new [] = (if old = [] then new else [])"
| "str_replace old new (c # cs) =
     (if old = [] then new @ c # str_replace old new cs
      else if prefix old (c # cs) then new @ str_replace old new (drop (length old) (c # cs))
      else c # str_replace old new cs)"
  by pat_completeness auto
termination
  by (relation "measure (\<lambda>(old, new, s). length s)") auto

definition transform_hook :: "string \<Rightarrow> string" where
  "transform_hook hook_content =
     (let result = str_replace ''${CLAUDE_PLUGIN_ROOT}/hooks/'' ''bash ~/.config/opencode/hook/'' hook_content;
          result = str_replace ''$CLAUDE_PLUGIN_ROOT/hooks/'' ''bash ~/.config/opencode/hook/'' result;
          result = str_replace ''${CLAUDE_PLUGIN_ROOT}'' ''~/.config/opencode'' result;
          result = str_replace ''$CLAUDE_PLUGIN_ROOT'' ''~/.config/opencode'' result
      in result)"

subsection \<open>\<^verbatim>\<open>_normalize_tool_references\<close>\<close>

text \<open>
  The pattern is \<^verbatim>\<open>\b{claude_name}\b(?=\s+tool|\s+command)\<close> with \<^verbatim>\<open>re.IGNORECASE\<close>.
  For a \<^verbatim>\<open>str\<close> pattern, \<^verbatim>\<open>\w\<close> is \<^verbatim>\<open>str.isalnum()\<close> or the underscore and
  \<^verbatim>\<open>\s\<close> is \<^verbatim>\<open>str.isspace()\<close>; below 256 these are the following code points.
\<close>

definition is_word_char :: "char \<Rightarrow> bool" where
  "is_word_char c =
     (let n = (of_char c :: nat)
      in (48 \<le> n \<and> n \<le> 57) \<or> (65 \<le> n \<and> n \<le> 90) \<or> n = 95 \<or> (97 \<le> n \<and> n \<le> 122)
         \<or> n = 170 \<or> n = 178 \<or> n = 179 \<or> n = 181 \<or> n = 185 \<or> n = 186
         \<or> n = 188 \<or> n = 189 \<or> n = 190
         \<or> (192 \<le> n \<and> n \<noteq> 215 \<and> n \<noteq> 247))"

definition is_space :: "char \<Rightarrow> bool" where
  "is_space c =
     (let n = (of_char c :: nat)
      in (9 \<le> n \<and> n \<le> 13) \<or> (28 \<le> n \<and> n \<le> 32) \<or> n = 133 \<or> n = 160)"

text \<open>The character at the head of a text, and the character that stands before the place reached after
  reading a text.\<close>

fun first_char :: "string \<Rightarrow> char option" where
  "first_char [] = None"
| "first_char (c # cs) = Some c"

definition final_char :: "char option \<Rightarrow> string \<Rightarrow> char option" where
  "final_char prev s = (if s = [] then prev else Some (last s))"

text \<open>\<^verbatim>\<open>\b\<close>: exactly one of the characters before and after the place is a word
  character; the start and the end of the text count as no word character.\<close>

fun is_word :: "char option \<Rightarrow> bool" where
  "is_word None = False"
| "is_word (Some c) = is_word_char c"

definition word_boundary :: "char option \<Rightarrow> char option \<Rightarrow> bool" where
  "word_boundary prev after = (is_word prev \<noteq> is_word after)"

text \<open>A literal of the pattern, matched at the head of a text without regard to case.\<close>

fun ci_prefix :: "string \<Rightarrow> string \<Rightarrow> bool" where
  "ci_prefix [] s = True"
| "ci_prefix (p # ps) [] = False"
| "ci_prefix (p # ps) (c # cs) = (lower_char p = lower_char c \<and> ci_prefix ps cs)"

text \<open>\<^verbatim>\<open>\s+\<close> followed by the rest \<open>k\<close> of a pattern: one space, and then more spaces or
  \<open>k\<close>.\<close>

fun spaces_then :: "(string \<Rightarrow> bool) \<Rightarrow> string \<Rightarrow> bool" where
  "spaces_then k [] = False"
| "spaces_then k (c # cs) = (is_space c \<and> (spaces_then k cs \<or> k cs))"

definition lookahead :: "string \<Rightarrow> bool" where
  "lookahead rest = (spaces_then (ci_prefix ''tool'') rest \<or> spaces_then (ci_prefix ''command'') rest)"

text \<open>The whole pattern at the head of \<open>s\<close>, where \<open>prev\<close> is the character before it.\<close>

definition tool_match :: "string \<Rightarrow> char option \<Rightarrow> string \<Rightarrow> bool" where
  "tool_match claude_name prev s =
     (word_boundary prev (first_char s)
      \<and> ci_prefix claude_name s
      \<and> word_boundary (final_char prev (take (length claude_name) s))
           (first_char (drop (length claude_name) s))
      \<and> lookahead (drop (length claude_name) s))"

text \<open>
  \<^verbatim>\<open>re.sub\<close> for this pattern: the text is scanned from the left, a match is replaced and
  the scan goes on after it.  Every key of the table is non-empty, so a match is never empty;
  what Python does with empty matches is not modelled.
\<close>

function re_sub_tool :: "string \<Rightarrow> string \<Rightarrow> char option \<Rightarrow> string \<Rightarrow> string" where
  "re_sub_tool claude_name opencode_name prev [] = []"
| "re_sub_tool claude_name opencode_name prev (c # cs) =
     (if claude_name \<noteq> [] \<and> tool_match claude_name prev (c # cs)
      then opencode_name @
           re_sub_tool claude_name opencode_name
             (final_char prev (take (length claude_name) (c # cs)))
             (drop (length claude_name) (c # cs))
      else c # re_sub_tool claude_name opencode_name (Some c) cs)"
  by pat_completeness auto
termination
  by (relation "measure (\<lambda>(claude_name, opencode_name, prev, s). length s)") auto

definition normalize_tool_references :: "string \<Rightarrow> string" where
  "normalize_tool_references text =
     fold (\<lambda>(claude_name, opencode_name) result. re_sub_tool claude_name opencode_name None result)
       OPENCODE_TOOL_NAME_MAP text"

subsection \<open>\<^verbatim>\<open>transform_skill\<close>, \<^verbatim>\<open>transform_agent\<close>, \<^verbatim>\<open>transform_command\<close>\<close>

text \<open>
  \<^verbatim>\<open>extract_frontmatter\<close> and \<^verbatim>\<open>create_frontmatter\<close> belong to the base class
  \<^verbatim>\<open>PlatformAdapter\<close>, whose source is not part of this development: they are parameters
  here.  The first returns the metadata and the body of a document, the second renders a
  metadata structure as a header.  An empty metadata structure is false in \<^verbatim>\<open>if frontmatter:\<close>.
  The optional \<^verbatim>\<open>metadata\<close> argument is never read.
\<close>

definition transform_skill ::
    "(string \<Rightarrow> frontmatter \<times> string) \<Rightarrow> (frontmatter \<Rightarrow> string) \<Rightarrow> string \<Rightarrow> py_error + string" where
  "transform_skill extract_frontmatter create_frontmatter skill_content =
     (case extract_frontmatter skill_content of
        (frontmatter, body) \<Rightarrow>
          (case (if frontmatter \<noteq> [] then transform_frontmatter frontmatter else Inr frontmatter) of
             Inl e \<Rightarrow> Inl e
           | Inr frontmatter \<Rightarrow>
               (let body = normalize_tool_references body
                in if frontmatter \<noteq> []
                   then Inr (create_frontmatter frontmatter @ [CHR 0x0A] @ body)
                   else Inr body)))"

definition transform_agent ::
    "(string \<Rightarrow> frontmatter \<times> string) \<Rightarrow> (frontmatter \<Rightarrow> string) \<Rightarrow> string \<Rightarrow> py_error + string" where
  "transform_agent extract_frontmatter create_frontmatter agent_content =
     (case extract_frontmatter agent_content of
        (frontmatter, body) \<Rightarrow>
          (case (if frontmatter \<noteq> [] then transform_agent_frontmatter frontmatter else Inr frontmatter) of
             Inl e \<Rightarrow> Inl e
           | Inr frontmatter \<Rightarrow>
               (let body = normalize_tool_references body
                in if frontmatter \<noteq> []
                   then Inr (create_frontmatter frontmatter @ [CHR 0x0A] @ body)
                   else Inr body)))"

definition transform_command ::
    "(string \<Rightarrow> frontmatter \<times> string) \<Rightarrow> (frontmatter \<Rightarrow> string) \<Rightarrow> string \<Rightarrow> py_error + string" where
  "transform_command extract_frontmatter create_frontmatter command_content =
     (case extract_frontmatter command_content of
        (frontmatter, body) \<Rightarrow>
          (case (if frontmatter \<noteq> [] then transform_command_frontmatter frontmatter else Inr frontmatter) of
             Inl e \<Rightarrow> Inl e
           | Inr frontmatter \<Rightarrow>
               (let body = normalize_tool_references body
                in if frontmatter \<noteq> []
                   then Inr (create_frontmatter frontmatter @ [CHR 0x0A] @ body)
                   else Inr body)))"

subsection \<open>What the body rewrite is compared with\<close>

text \<open>After one or more spaces come the letters of \<^verbatim>\<open>tool\<close> or of \<^verbatim>\<open>command\<close>, in
  either case; what comes after these letters is free.\<close>

definition keyword_follows :: "string \<Rightarrow> bool" where
  "keyword_follows rest =
     (\<exists>n \<in> {1..length rest}.
        (\<forall>c \<in> set (take n rest). is_space c)
        \<and> (lower (take 4 (drop n rest)) = ''tool'' \<or> lower (take 7 (drop n rest)) = ''command''))"

text \<open>An occurrence of a tool name at the head of \<open>s\<close>: the name in either case, no word
  character before it, and the keyword after it.\<close>

definition tool_occurrence :: "string \<Rightarrow> char option \<Rightarrow> string \<Rightarrow> bool" where
  "tool_occurrence claude_name prev s =
     (length claude_name \<le> length s
      \<and> lower (take (length claude_name) s) = lower claude_name
      \<and> \<not> is_word prev
      \<and> keyword_follows (drop (length claude_name) s))"

text \<open>The character before index \<open>i\<close> of a text that itself comes after \<open>prev\<close>.\<close>

definition prev_at :: "char option \<Rightarrow> string \<Rightarrow> nat \<Rightarrow> char option" where
  "prev_at prev s i = (if i = 0 then prev else Some (s ! (i - 1)))"

text \<open>An occurrence starts at index \<open>i\<close> of \<open>s\<close>; index \<open>i\<close> lies inside an occurrence that
  starts before it.\<close>

definition occurrence_at :: "string \<Rightarrow> char option \<Rightarrow> string \<Rightarrow> nat \<Rightarrow> bool" where
  "occurrence_at claude_name prev s i = tool_occurrence claude_name (prev_at prev s i) (drop i s)"

definition inside_occurrence :: "string \<Rightarrow> char option \<Rightarrow> string \<Rightarrow> nat \<Rightarrow> bool" where
  "inside_occurrence claude_name prev s i =
     (\<exists>j \<in> {0..<i}. i < j + length claude_name \<and> occurrence_at claude_name prev s j)"

text \<open>
  The text with every occurrence of the name replaced and every other character kept, said
  index by index: where an occurrence starts stands the platform name, the other characters
  of an occurrence give nothing, and a character outside every occurrence stays.
\<close>

definition piece :: "string \<Rightarrow> string \<Rightarrow> char option \<Rightarrow> string \<Rightarrow> nat \<Rightarrow> string" where
  "piece claude_name opencode_name prev s i =
     (if occurrence_at claude_name prev s i then opencode_name
      else if inside_occurrence claude_name prev s i then []
      else [s ! i])"

definition rewritten :: "string \<Rightarrow> string \<Rightarrow> char option \<Rightarrow> string \<Rightarrow> string" where
  "rewritten claude_name opencode_name prev s =
     concat (map (piece claude_name opencode_name prev s) [0..<length s])"

text \<open>The reading of the specification: after one or more spaces comes the word
  \<^verbatim>\<open>tool\<close> or \<^verbatim>\<open>command\<close> as it is written, and the word ends there.\<close>

definition literal_word_follows :: "string \<Rightarrow> bool" where
  "literal_word_follows rest =
     (\<exists>n \<in> {1..length rest}.
        (\<forall>c \<in> set (take n rest). is_space c)
        \<and> ((prefix ''tool'' (drop n rest) \<and> \<not> is_word (first_char (drop (n + 4) rest)))
           \<or> (prefix ''command'' (drop n rest) \<and> \<not> is_word (first_char (drop (n + 7) rest)))))"

subsection \<open>\<^verbatim>\<open>get_install_path\<close>\<close>

text \<open>
  A \<^verbatim>\<open>Path\<close> is the list of its parts.  What the file system and the process decide is a
  parameter: \<open>expanduser t\<close> is \<^verbatim>\<open>Path(t).expanduser()\<close>, \<open>resolve\<close> is
  \<^verbatim>\<open>Path.resolve\<close>, \<open>home\<close> is \<^verbatim>\<open>Path.home()\<close>, and \<open>OPENCODE_CONFIG_PATH\<close> is
  \<^verbatim>\<open>os.environ.get("OPENCODE_CONFIG_PATH")\<close>.  The adapter holds the memoized path and
  the \<^verbatim>\<open>install_path\<close> entry of its configuration.
\<close>

type_synonym path = "string list"

record os_env =
  OPENCODE_CONFIG_PATH :: "string option"
  expanduser :: "string \<Rightarrow> path"
  resolve :: "path \<Rightarrow> path"
  home :: path

record adapter =
  install_path :: "path option"
  config_install_path :: "string option"

datatype log_record = LogInfo string | LogWarning string | LogError string

text \<open>\<^verbatim>\<open>candidate.relative_to(home)\<close> raises \<^verbatim>\<open>ValueError\<close> (here \<open>None\<close>) unless the
  parts of \<open>home\<close> start the parts of \<open>candidate\<close>.\<close>

definition relative_to :: "path \<Rightarrow> path \<Rightarrow> path option" where
  "relative_to candidate other =
     (if prefix other candidate then Some (drop (length other) candidate) else None)"

definition get_install_path :: "os_env \<Rightarrow> adapter \<Rightarrow> path \<times> adapter \<times> log_record list" where
  "get_install_path env self =
     (case install_path self of
        Some memo \<Rightarrow> (memo, self, [])
      | None \<Rightarrow>
          (let env_path = expanduser env
                 (case config_install_path self of Some t \<Rightarrow> t | None \<Rightarrow> ''~/.config/opencode'');
               (env_path, log) =
                 (case OPENCODE_CONFIG_PATH env of
                    None \<Rightarrow> (env_path, [])
                  | Some override \<Rightarrow>
                      if override = [] then (env_path, [])
                      else (let candidate = resolve env (expanduser env override);
                                home = resolve env (home env)
                            in case relative_to candidate home of
                                 Some _ \<Rightarrow> (candidate, [])
                               | None \<Rightarrow>
                                   (env_path,
                                    [LogWarning (''OPENCODE_CONFIG_PATH='' @ override @
                                       '' ignored: path must be under home'')])))
           in (env_path, self\<lparr>install_path := Some env_path\<rparr>, log)))"

subsection \<open>\<^verbatim>\<open>merge_hooks_to_config\<close>\<close>

text \<open>
  The values of \<^verbatim>\<open>json.loads\<close> and of the hooks configuration: the keys of an object are
  strings (numbers that are not integers are left out).
\<close>

datatype json =
    JNull
  | JBool bool
  | JInt int
  | JStr string
  | JList "json list"
  | JDict "(string \<times> json) list"

text \<open>\<^verbatim>\<open>name in container\<close>, \<^verbatim>\<open>container[name]\<close> and \<^verbatim>\<open>container[name] = value\<close> for a
  string \<open>name\<close>, with the exceptions Python raises on the other types.\<close>

fun contains :: "string \<Rightarrow> json \<Rightarrow> py_error + bool" where
  "contains name (JDict d) = Inr (name \<in> fst ` set d)"
| "contains name (JList xs) = Inr (JStr name \<in> set xs)"
| "contains name (JStr s) = Inr (sublist name s)"
| "contains name _ = Inl TypeError"

fun get_item :: "json \<Rightarrow> string \<Rightarrow> py_error + json" where
  "get_item (JDict d) name = (case map_of d name of Some v \<Rightarrow> Inr v | None \<Rightarrow> Inl KeyError)"
| "get_item _ name = Inl TypeError"

fun set_item :: "json \<Rightarrow> string \<Rightarrow> json \<Rightarrow> py_error + json" where
  "set_item (JDict d) name v = Inr (JDict (AList.update name v d))"
| "set_item _ name v = Inl TypeError"

text \<open>What \<^verbatim>\<open>list.extend\<close> reads from its argument: the elements of a list, the
  characters of a string, the keys of a dict.\<close>

fun iterate :: "json \<Rightarrow> py_error + json list" where
  "iterate (JList xs) = Inr xs"
| "iterate (JStr s) = Inr (map (\<lambda>c. JStr [c]) s)"
| "iterate (JDict d) = Inr (map (\<lambda>(k, v). JStr k) d)"
| "iterate _ = Inl TypeError"

fun extend :: "json \<Rightarrow> json \<Rightarrow> py_error + json" where
  "extend (JList xs) items = (case iterate items of Inl e \<Rightarrow> Inl e | Inr ys \<Rightarrow> Inr (JList (xs @ ys)))"
| "extend _ items = Inl AttributeError"

text \<open>\<^verbatim>\<open>if "hooks" not in existing_config: existing_config["hooks"] = {}\<close>\<close>

definition ensure_hooks :: "json \<Rightarrow> py_error + json" where
  "ensure_hooks existing_config =
     (case contains ''hooks'' existing_config of
        Inl e \<Rightarrow> Inl e
      | Inr True \<Rightarrow> Inr existing_config
      | Inr False \<Rightarrow> set_item existing_config ''hooks'' (JDict []))"

text \<open>One round of the loop.  The list is extended in place, so the hooks mapping and the
  configuration hold the extended list afterwards.\<close>

definition merge_event :: "json \<Rightarrow> string \<times> json \<Rightarrow> py_error + json" where
  "merge_event existing_config ev =
     (case ev of (event_name, event_hooks) \<Rightarrow>
      (case get_item existing_config ''hooks'' of Inl e \<Rightarrow> Inl e | Inr hooks \<Rightarrow>
      (case contains event_name hooks of Inl e \<Rightarrow> Inl e | Inr present \<Rightarrow>
      (case (if \<not> present then set_item hooks event_name (JList []) else Inr hooks) of
         Inl e \<Rightarrow> Inl e | Inr hooks \<Rightarrow>
      (case get_item hooks event_name of Inl e \<Rightarrow> Inl e | Inr entries \<Rightarrow>
      (case extend entries event_hooks of Inl e \<Rightarrow> Inl e | Inr entries \<Rightarrow>
      (case set_item hooks event_name entries of Inl e \<Rightarrow> Inl e | Inr hooks \<Rightarrow>
         set_item existing_config ''hooks'' hooks)))))))"

fun merge_loop :: "(string \<times> json) list \<Rightarrow> json \<Rightarrow> py_error + json" where
  "merge_loop [] existing_config = Inr existing_config"
| "merge_loop (ev # rest) existing_config =
     (case merge_event existing_config ev of
        Inl e \<Rightarrow> Inl e
      | Inr existing_config \<Rightarrow> merge_loop rest existing_config)"

text \<open>Lines 480 to 487: \<^verbatim>\<open>hooks_config.get("hooks", hooks_config)\<close> and the loop over its
  \<^verbatim>\<open>items()\<close>, which only a dict has.\<close>

definition merge_hooks :: "json \<Rightarrow> (string \<times> json) list \<Rightarrow> py_error + json" where
  "merge_hooks existing_config hooks_config =
     (case ensure_hooks existing_config of
        Inl e \<Rightarrow> Inl e
      | Inr existing_config \<Rightarrow>
          (case (case map_of hooks_config ''hooks'' of Some v \<Rightarrow> v | None \<Rightarrow> JDict hooks_config) of
             JDict hooks_to_merge \<Rightarrow> merge_loop hooks_to_merge existing_config
           | _ \<Rightarrow> Inl AttributeError))"

text \<open>\<^verbatim>\<open>str.strip()\<close>, \<^verbatim>\<open>content.split("\n")\<close> and \<^verbatim>\<open>"\n".join(lines)\<close>.\<close>

definition strip :: "string \<Rightarrow> string" where
  "strip s = rev (dropWhile is_space (rev (dropWhile is_space s)))"

fun split_newline :: "string \<Rightarrow> string list" where
  "split_newline [] = [[]]"
| "split_newline (c # cs) =
     (if c = CHR 0x0A then [] # split_newline cs
      else (case split_newline cs of [] \<Rightarrow> [[c]] | l # ls \<Rightarrow> (c # l) # ls))"

fun join_newline :: "string list \<Rightarrow> string" where
  "join_newline [] = []"
| "join_newline [l] = l"
| "join_newline (l # ls) = l @ CHR 0x0A # join_newline ls"

definition clean_content :: "string \<Rightarrow> string" where
  "clean_content content =
     join_newline (filter (\<lambda>line. \<not> prefix ''//'' (strip line)) (split_newline content))"

text \<open>
  The file at \<^verbatim>\<open>config_path\<close>: missing, there but not readable as text, or holding a text.
  What the attempt to write does is a parameter of the world too: it succeeds, or it raises
  and leaves the file in some state.  \<open>json_loads\<close> is \<^verbatim>\<open>json.loads\<close> (\<open>None\<close> when it
  raises) and \<open>json_dumps\<close> is \<^verbatim>\<open>json.dumps(_, indent=2)\<close>.
\<close>

datatype file_state = Missing | Unreadable | Content string

datatype write_outcome = Written | WriteFailed file_state

record world =
  config_file :: file_state
  write_attempt :: write_outcome

definition read_existing :: "(string \<Rightarrow> json option) \<Rightarrow> file_state \<Rightarrow> json \<times> log_record list" where
  "read_existing json_loads f =
     (case f of
        Missing \<Rightarrow> (JDict [], [])
      | Unreadable \<Rightarrow> (JDict [], [LogWarning ''Failed to read opencode.json''])
      | Content content \<Rightarrow>
          (if strip (clean_content content) = [] then (JDict [], [])
           else (case json_loads (clean_content content) of
                   Some existing_config \<Rightarrow> (existing_config, [])
                 | None \<Rightarrow> (JDict [], [LogWarning ''Failed to read opencode.json'']))))"

definition merge_hooks_to_config ::
    "(string \<Rightarrow> json option) \<Rightarrow> (json \<Rightarrow> string) \<Rightarrow> world \<Rightarrow> (string \<times> json) list \<Rightarrow> bool
       \<Rightarrow> (py_error + bool) \<times> world \<times> log_record list" where
  "merge_hooks_to_config json_loads json_dumps w hooks_config dry_run =
     (case read_existing json_loads (config_file w) of
        (existing_config, log) \<Rightarrow>
          (case merge_hooks existing_config hooks_config of
             Inl e \<Rightarrow> (Inl e, w, log)
           | Inr existing_config \<Rightarrow>
               if dry_run then (Inr True, w, log @ [LogInfo ''[DRY RUN] Would merge hooks''])
               else (case write_attempt w of
                       Written \<Rightarrow> (Inr True, w\<lparr>config_file := Content (json_dumps existing_config)\<rparr>, log)
                     | WriteFailed left \<Rightarrow>
                         (Inr False, w\<lparr>config_file := left\<rparr>,
                          log @ [LogError ''Failed to write opencode.json'']))))"

subsection \<open>What the merge is compared with\<close>

text \<open>The entries a hooks mapping holds for an event: those of its list, and none when the
  event is absent.\<close>

definition entries_of :: "(string \<times> json) list \<Rightarrow> string \<Rightarrow> json list" where
  "entries_of h event_name = (case map_of h event_name of Some (JList xs) \<Rightarrow> xs | _ \<Rightarrow> [])"

text \<open>Every value of a mapping is a list.\<close>

definition all_lists :: "(string \<times> json) list \<Rightarrow> bool" where
  "all_lists h = list_all (\<lambda>(k, v). case v of JList _ \<Rightarrow> True | _ \<Rightarrow> False) h"

text \<open>The hooks mapping of a configuration: empty when the key is absent.\<close>

definition hooks_of :: "(string \<times> json) list \<Rightarrow> (string \<times> json) list option" where
  "hooks_of cfg =
     (case map_of cfg ''hooks'' of None \<Rightarrow> Some [] | Some (JDict h) \<Rightarrow> Some h | Some _ \<Rightarrow> None)"

text \<open>The events of an incoming configuration, wrapped in \<^verbatim>\<open>hooks\<close> or bare.\<close>

definition incoming :: "(string \<times> json) list \<Rightarrow> (string \<times> json) list option" where
  "incoming hooks_config =
     (case map_of hooks_config ''hooks'' of
        None \<Rightarrow> Some hooks_config
      | Some (JDict evs) \<Rightarrow> Some evs
      | Some _ \<Rightarrow> None)"

text \<open>Reading or parsing the file fails: it is there and cannot be read, or its text without
  the comment lines is not blank and \<open>json_loads\<close> raises.\<close>

fun read_failed :: "(string \<Rightarrow> json option) \<Rightarrow> file_state \<Rightarrow> bool" where
  "read_failed json_loads Missing = False"
| "read_failed json_loads Unreadable = True"
| "read_failed json_loads (Content content) =
     (strip (clean_content content) \<noteq> [] \<and> json_loads (clean_content content) = None)"

section \<open>Properties\<close>

subsection \<open>The tools rewrite\<close>

lemma first_occurrences_snoc:
  "first_occurrences (xs @ [x]) = first_occurrences xs @ (if x \<in> set xs then [] else [x])"
proof -
  have "filter (\<lambda>(i, y). y \<notin> set (take i (xs @ [x]))) (enumerate 0 xs)
      = filter (\<lambda>(i, y). y \<notin> set (take i xs)) (enumerate 0 xs)"
    by (rule filter_cong) (auto simp: in_set_enumerate_eq)
  then show ?thesis
    by (simp add: first_occurrences_def enumerate_append_eq)
qed

lemma set_first_occurrences: "set (first_occurrences ys) = set ys"
proof (induction ys rule: rev_induct)
  case Nil
  show ?case by (simp add: first_occurrences_def)
next
  case (snoc y ys)
  then show ?case by (auto simp: first_occurrences_snoc)
qed

lemma dedup_names_snoc:
  "dedup_names (ys @ [y]) = dedup_names ys @ (if is_PStr y \<and> y \<in> set ys then [] else [y])"
proof -
  have "filter (\<lambda>(i, z). is_PStr z \<longrightarrow> z \<notin> set (take i (ys @ [y]))) (enumerate 0 ys)
      = filter (\<lambda>(i, z). is_PStr z \<longrightarrow> z \<notin> set (take i ys)) (enumerate 0 ys)"
    by (rule filter_cong) (auto simp: in_set_enumerate_eq)
  then show ?thesis
    by (simp add: dedup_names_def enumerate_append_eq)
qed

lemma tools_dict_loop_append:
  "tools_dict_loop (xs @ ys) acc = tools_dict_loop ys (tools_dict_loop xs acc)"
  by (induction xs acc rule: tools_dict_loop.induct) simp_all

lemma tools_list_loop_append:
  "tools_list_loop (xs @ ys) acc = tools_list_loop ys (tools_list_loop xs acc)"
  by (induction xs acc rule: tools_list_loop.induct) (simp_all add: Let_def)

lemma string_items_append: "string_items (xs @ ys) = string_items xs @ string_items ys"
  by (induction xs rule: string_items.induct) simp_all

lemma mapped_items_append: "mapped_items (xs @ ys) = mapped_items xs @ mapped_items ys"
  by (simp add: mapped_items_def string_items_append)

lemma set_tools_list_loop:
  "set (tools_list_loop xs acc) = set acc \<union> mapped_entry ` set xs"
  by (induction xs acc rule: tools_list_loop.induct) (auto simp: Let_def)

lemma tools_list_loop_dedup: "tools_list_loop xs [] = dedup_names (map mapped_entry xs)"
proof (induction xs rule: rev_induct)
  case Nil
  show ?case by (simp add: dedup_names_def)
next
  case (snoc x xs)
  have mem: "y \<in> set (dedup_names (map mapped_entry xs)) \<longleftrightarrow> y \<in> mapped_entry ` set xs" for y
    using set_tools_list_loop [of xs "[]"] by (simp add: snoc)
  show ?case
    by (cases x) (simp_all add: tools_list_loop_append dedup_names_snoc snoc Let_def mem)
qed

lemma mapped_items_single_str [simp]: "mapped_items [(PStr k, v)] = [(PStr (mapped_tool k), v)]"
  by (simp add: mapped_items_def)

lemma mapped_items_single_other [simp]: "\<not> is_PStr k \<Longrightarrow> mapped_items [(k, v)] = []"
  by (cases k) (simp_all add: mapped_items_def)

lemma keys_tools_dict_loop:
  "map fst (tools_dict_loop xs []) = first_occurrences (map fst (mapped_items xs))"
proof (induction xs rule: rev_induct)
  case Nil
  show ?case by (simp add: first_occurrences_def mapped_items_def)
next
  case (snoc x xs)
  obtain k v where x: "x = (k, v)" by (cases x)
  let ?r = "tools_dict_loop xs []"
  have keys: "fst ` set ?r = set (map fst (mapped_items xs))"
    using set_first_occurrences [of "map fst (mapped_items xs)"] snoc by (metis set_map)
  show ?case
  proof (cases k)
    case (PStr t)
    have "map fst (tools_dict_loop (xs @ [x]) []) = map fst (AList.update (PStr (mapped_tool t)) v ?r)"
      by (simp add: x PStr tools_dict_loop_append)
    also have "\<dots> = (if PStr (mapped_tool t) \<in> set (map fst (mapped_items xs)) then map fst ?r
                       else map fst ?r @ [PStr (mapped_tool t)])"
      unfolding update_keys keys [symmetric] by simp
    also have "\<dots> = first_occurrences (map fst (mapped_items (xs @ [x])))"
      unfolding snoc mapped_items_append x PStr by (simp add: first_occurrences_snoc)
    finally show ?thesis .
  qed (simp_all add: x tools_dict_loop_append mapped_items_append snoc)
qed

lemma map_of_tools_dict_loop:
  "map_of (tools_dict_loop xs acc) = map_of acc ++ map_of (rev (mapped_items xs))"
proof (induction xs acc rule: tools_dict_loop.induct)
  case (2 tool enabled rest normalized)
  have "map_of (rev (mapped_items ((PStr tool, enabled) # rest)))
      = [PStr (mapped_tool tool) \<mapsto> enabled] ++ map_of (rev (mapped_items rest))"
    by (simp add: mapped_items_def)
  moreover have "map_of (tools_dict_loop ((PStr tool, enabled) # rest) normalized)
      = map_of (AList.update (PStr (mapped_tool tool)) enabled normalized) ++ map_of (rev (mapped_items rest))"
    using 2 by simp
  moreover have "map_of (AList.update (PStr (mapped_tool tool)) enabled normalized) ++ m
      = map_of normalized ++ ([PStr (mapped_tool tool) \<mapsto> enabled] ++ m)" for m
    unfolding update_conv' by (simp add: fun_eq_iff map_add_def split: option.splits)
  ultimately show ?case by simp
qed (simp_all add: mapped_items_def)

lemma tools_dict_loop_string_keyed:
  "tools_dict_loop items acc = tools_dict_loop (string_keyed items) acc"
  by (induction items acc rule: tools_dict_loop.induct) (simp_all add: string_keyed_def)

lemma tools_list_loop_others:
  "filter (\<lambda>y. \<not> is_PStr y) (tools_list_loop xs acc)
     = filter (\<lambda>y. \<not> is_PStr y) acc @ filter (\<lambda>y. \<not> is_PStr y) xs"
  by (induction xs acc rule: tools_list_loop.induct) (simp_all add: Let_def)

lemma mapped_tool_Bash: "mapped_tool ''Bash'' = ''bash''"
  by (simp add: mapped_tool_def OPENCODE_TOOL_NAME_MAP_def)

lemma mapped_tool_Read: "mapped_tool ''Read'' = ''read''"
  by (simp add: mapped_tool_def OPENCODE_TOOL_NAME_MAP_def)

lemma mapped_tool_Edit: "mapped_tool ''Edit'' = ''edit''"
  by (simp add: mapped_tool_def OPENCODE_TOOL_NAME_MAP_def)

lemma mapped_tool_MultiEdit: "mapped_tool ''MultiEdit'' = ''edit''"
  by (simp add: mapped_tool_def OPENCODE_TOOL_NAME_MAP_def)

lemma mapped_tool_bash: "mapped_tool ''bash'' = ''bash''"
  by (simp add: mapped_tool_def OPENCODE_TOOL_NAME_MAP_def lower_def lower_char_def)

lemma mapped_tool_multiedit: "mapped_tool ''multiedit'' = ''multiedit''"
  by (simp add: mapped_tool_def OPENCODE_TOOL_NAME_MAP_def lower_def lower_char_def)

lemma lower_char_idem: "lower_char (lower_char c) = lower_char c"
proof -
  have "(of_char c :: nat) < 256" by simp
  then show ?thesis
    unfolding lower_char_def Let_def by auto
qed

lemma lower_idem: "lower (lower s) = lower s"
  by (simp add: lower_def lower_char_idem)

lemma tool_names_distinct: "distinct (map fst OPENCODE_TOOL_NAME_MAP)"
  by (simp add: OPENCODE_TOOL_NAME_MAP_def)

lemma tool_values_lower: "(tool, m) \<in> set OPENCODE_TOOL_NAME_MAP \<Longrightarrow> lower m = m"
  by (auto simp: OPENCODE_TOOL_NAME_MAP_def lower_def lower_char_def)

lemma mapped_tool_in_table: "(tool, m) \<in> set OPENCODE_TOOL_NAME_MAP \<Longrightarrow> mapped_tool tool = m"
  using map_of_is_SomeI [OF tool_names_distinct] by (simp add: mapped_tool_def)

lemma mapped_tool_fallback: "tool \<notin> fst ` set OPENCODE_TOOL_NAME_MAP \<Longrightarrow> mapped_tool tool = lower tool"
  by (simp add: mapped_tool_def map_of_eq_None_iff [THEN iffD2])

lemma mapped_tool_lower: "lower (mapped_tool tool) = mapped_tool tool"
proof (cases "map_of OPENCODE_TOOL_NAME_MAP tool")
  case None
  then show ?thesis by (simp add: mapped_tool_def lower_idem)
next
  case (Some m)
  then have "(tool, m) \<in> set OPENCODE_TOOL_NAME_MAP" by (rule map_of_SomeD)
  then have "lower m = m" by (rule tool_values_lower)
  with Some show ?thesis by (simp add: mapped_tool_def)
qed

lemma update_absent: "k \<notin> fst ` set al \<Longrightarrow> AList.update k v al = al @ [(k, v)]"
  by (induction al) auto

lemma tools_dict_loop_distinct:
  "distinct (map fst acc @ map fst (mapped_items items)) \<Longrightarrow>
   tools_dict_loop items acc = acc @ mapped_items items"
proof (induction items acc rule: tools_dict_loop.induct)
  case (2 tool enabled rest normalized)
  let ?k = "PStr (mapped_tool tool)"
  have mi: "mapped_items ((PStr tool, enabled) # rest) = (?k, enabled) # mapped_items rest"
    by (simp add: mapped_items_def)
  from "2.prems" have absent: "?k \<notin> fst ` set normalized"
    unfolding mi by auto
  from "2.prems" have "distinct (map fst (normalized @ [(?k, enabled)]) @ map fst (mapped_items rest))"
    unfolding mi by simp
  then have "tools_dict_loop rest (normalized @ [(?k, enabled)])
      = (normalized @ [(?k, enabled)]) @ mapped_items rest"
    using "2.IH" by (simp add: update_absent [OF absent])
  then show ?case by (simp add: update_absent [OF absent] mi)
qed (simp_all add: mapped_items_def)

lemma tools_last_write_example:
  "transform_tools_for_opencode (PDict [(PStr ''Edit'', PBool True), (PStr ''MultiEdit'', PBool False)])
     = PDict [(PStr ''edit'', PBool False)]"
  by (simp add: mapped_tool_Edit mapped_tool_MultiEdit)

text \<open>
  C1.  A tools mapping becomes a mapping whose keys are the rewritten string keys and whose
  values are the values that came with them: when the rewritten names are distinct, the
  result is the list of the entries with a string key, in order, each with its rewritten key
  and its own value; in general each rewritten name stands once, at the place of its first
  occurrence, with the value of the last entry rewritten to it (a later write to the same
  name overwrites).  A key is rewritten to its entry of the tool-name table, and to its
  lower-cased copy when the table has no entry for it; the rewritten name is in lower case
  either way.  A tools list becomes the list of the rewritten entries without the strings that
  occurred before, in the order of their first occurrence; entries that are not strings all
  stay where they are.  \<^verbatim>\<open>{"Bash": true, "Read": false}\<close> becomes
  \<^verbatim>\<open>{"bash": true, "read": false}\<close>.
\<close>

theorem transform_tools_for_opencode_rewrite:
  "(\<exists>r. transform_tools_for_opencode (PDict items) = PDict r
        \<and> map fst r = first_occurrences (map fst (mapped_items items))
        \<and> map_of r = map_of (rev (mapped_items items))
        \<and> (distinct (map fst (mapped_items items)) \<longrightarrow> r = mapped_items items))
   \<and> transform_tools_for_opencode (PList xs) = PList (dedup_names (map mapped_entry xs))
   \<and> ((tool, m) \<in> set OPENCODE_TOOL_NAME_MAP \<longrightarrow> mapped_tool tool = m)
   \<and> (tool \<notin> fst ` set OPENCODE_TOOL_NAME_MAP \<longrightarrow> mapped_tool tool = lower tool)
   \<and> lower (mapped_tool tool) = mapped_tool tool
   \<and> transform_tools_for_opencode (PDict [(PStr ''Bash'', PBool True), (PStr ''Read'', PBool False)])
        = PDict [(PStr ''bash'', PBool True), (PStr ''read'', PBool False)]"
proof -
  have "map_of (tools_dict_loop items []) = map_of (rev (mapped_items items))"
    by (simp add: map_of_tools_dict_loop)
  moreover have "tools_dict_loop items [] = mapped_items items"
    if "distinct (map fst (mapped_items items))"
    using that tools_dict_loop_distinct [of "[]" items] by simp
  ultimately have "\<exists>r. transform_tools_for_opencode (PDict items) = PDict r
        \<and> map fst r = first_occurrences (map fst (mapped_items items))
        \<and> map_of r = map_of (rev (mapped_items items))
        \<and> (distinct (map fst (mapped_items items)) \<longrightarrow> r = mapped_items items)"
    by (simp add: keys_tools_dict_loop)
  moreover have "transform_tools_for_opencode (PList xs) = PList (dedup_names (map mapped_entry xs))"
    by (simp add: tools_list_loop_dedup)
  moreover have "transform_tools_for_opencode (PDict [(PStr ''Bash'', PBool True), (PStr ''Read'', PBool False)])
        = PDict [(PStr ''bash'', PBool True), (PStr ''read'', PBool False)]"
    by (simp add: mapped_tool_Bash mapped_tool_Read)
  ultimately show ?thesis
    using mapped_tool_in_table [of tool m] mapped_tool_fallback [of tool] mapped_tool_lower [of tool]
    by blast
qed

theorem transform_tools_for_opencode_rewrite_witness:
  "transform_tools_for_opencode (PList [PStr ''Bash'', PInt 7, PStr ''bash'', PInt 7, PStr ''Edit''])
     = PList [PStr ''bash'', PInt 7, PInt 7, PStr ''edit'']
   \<and> (''Bash'', ''bash'') \<in> set OPENCODE_TOOL_NAME_MAP
   \<and> mapped_tool ''Bash'' = ''bash''"
proof -
  note t = transform_tools_for_opencode_rewrite
     [of "[]" "[PStr ''Bash'', PInt 7, PStr ''bash'', PInt 7, PStr ''Edit'']" "''Bash''" "''bash''"]
  have "transform_tools_for_opencode (PList [PStr ''Bash'', PInt 7, PStr ''bash'', PInt 7, PStr ''Edit''])
      = PList (dedup_names (map mapped_entry [PStr ''Bash'', PInt 7, PStr ''bash'', PInt 7, PStr ''Edit'']))"
    by (rule t [THEN conjunct2, THEN conjunct1])
  also have "\<dots> = PList [PStr ''bash'', PInt 7, PInt 7, PStr ''edit'']"
    by (simp add: dedup_names_def enumerate_eq_zip upt_rec mapped_tool_Bash mapped_tool_bash mapped_tool_Edit)
  finally have l: "transform_tools_for_opencode (PList [PStr ''Bash'', PInt 7, PStr ''bash'', PInt 7, PStr ''Edit''])
      = PList [PStr ''bash'', PInt 7, PInt 7, PStr ''edit'']" .
  have mem: "(''Bash'', ''bash'') \<in> set OPENCODE_TOOL_NAME_MAP"
    by (simp add: OPENCODE_TOOL_NAME_MAP_def)
  have "mapped_tool ''Bash'' = ''bash''"
    by (rule t [THEN conjunct2, THEN conjunct2, THEN conjunct1, rule_format, OF mem])
  with l mem show ?thesis by (intro conjI)
qed

text \<open>
  C10.  In a tools mapping the entries whose key is not a string are dropped: the result
  is the rewrite of the entries with a string key alone, every key of the result is a string,
  and the keys are exactly the rewritten string keys.  In a tools list, the entries that are
  not strings all stay, in their order.
\<close>

theorem transform_tools_for_opencode_drops_other_keys:
  "(\<exists>r. transform_tools_for_opencode (PDict items) = PDict r
        \<and> transform_tools_for_opencode (PDict (string_keyed items)) = PDict r
        \<and> list_all is_PStr (map fst r)
        \<and> set (map fst r) = (\<lambda>(k, v). PStr (mapped_tool k)) ` set (string_items items))
   \<and> (\<exists>ys. transform_tools_for_opencode (PList xs) = PList ys
        \<and> filter (\<lambda>y. \<not> is_PStr y) ys = filter (\<lambda>y. \<not> is_PStr y) xs)"
proof -
  have keys: "set (map fst (tools_dict_loop items [])) = (\<lambda>(k, v). PStr (mapped_tool k)) ` set (string_items items)"
    unfolding keys_tools_dict_loop set_first_occurrences
    by (force simp: mapped_items_def)
  then have "list_all is_PStr (map fst (tools_dict_loop items []))"
    unfolding list_all_iff by auto
  with keys have "\<exists>r. transform_tools_for_opencode (PDict items) = PDict r
        \<and> transform_tools_for_opencode (PDict (string_keyed items)) = PDict r
        \<and> list_all is_PStr (map fst r)
        \<and> set (map fst r) = (\<lambda>(k, v). PStr (mapped_tool k)) ` set (string_items items)"
    using tools_dict_loop_string_keyed [of items "[]"] by simp
  moreover have "\<exists>ys. transform_tools_for_opencode (PList xs) = PList ys
        \<and> filter (\<lambda>y. \<not> is_PStr y) ys = filter (\<lambda>y. \<not> is_PStr y) xs"
    by (simp add: tools_list_loop_others)
  ultimately show ?thesis by blast
qed

theorem transform_tools_for_opencode_drops_other_keys_witness:
  "transform_tools_for_opencode (PDict [(PInt 1, PBool True), (PStr ''Bash'', PBool True), (PNone, PBool False)])
     = PDict [(PStr ''bash'', PBool True)]
   \<and> transform_tools_for_opencode (PList [PInt 1, PStr ''Bash'', PNone]) = PList [PInt 1, PStr ''bash'', PNone]"
  using transform_tools_for_opencode_drops_other_keys
          [of "[(PInt 1, PBool True), (PStr ''Bash'', PBool True), (PNone, PBool False)]"
              "[PInt 1, PStr ''Bash'', PNone]"]
  by (simp add: mapped_tool_Bash)

subsection \<open>The frontmatter rewrites\<close>

lemma model_map_no_slash: "map_of OPENCODE_MODEL_MAP m = Some q \<Longrightarrow> CHR ''/'' \<notin> set m"
  by (auto simp: OPENCODE_MODEL_MAP_def split: if_splits)

lemma map_of_tools_step_model: "map_of (tools_step r) ''model'' = map_of r ''model''"
  by (simp add: tools_step_def update_conv' split: option.splits)

lemma map_of_drop_fields: "map_of (drop_fields fs r) k = (if k \<in> set fs then None else map_of r k)"
  unfolding drop_fields_def
  by (induction fs arbitrary: r) (simp_all add: delete_conv')

lemma digit_no_slash: "k < 10 \<Longrightarrow> char_of (48 + k) \<noteq> CHR ''/''" for k :: nat
proof
  assume k: "k < 10" and eq: "char_of (48 + k) = CHR ''/''"
  have "(of_char (char_of (48 + k) :: char) :: nat) = of_char (CHR ''/'')"
    by (simp only: eq)
  then have "(48 + k) mod 256 = 47" by simp
  with k show False by simp
qed

lemma str_nat_no_slash: "CHR ''/'' \<notin> set (str_nat n)"
proof (induction n rule: str_nat.induct)
  case (1 n)
  show ?case
  proof (cases "n < 10")
    case True
    then show ?thesis using digit_no_slash [of n] by (subst str_nat.simps) auto
  next
    case False
    then show ?thesis
      using 1 digit_no_slash [of "n mod 10"] by (subst str_nat.simps) auto
  qed
qed

lemma py_str_no_slash: "hashable v \<Longrightarrow> \<not> is_PStr v \<Longrightarrow> CHR ''/'' \<notin> set (py_str v)"
  by (cases v) (simp_all add: str_int_def str_nat_no_slash)

lemma model_step_string:
  assumes "map_of fm ''model'' = Some (PStr m)"
  shows "\<exists>r. model_step fm = Inr r \<and>
     map_of r ''model'' = Some (PStr (case map_of OPENCODE_MODEL_MAP m of Some q \<Rightarrow> q
         | None \<Rightarrow> if CHR ''/'' \<notin> set m \<and> m \<noteq> ''inherit'' then ''anthropic/'' @ m else m))"
  using assms by (simp add: model_step_def update_conv' split: option.splits)

lemma model_step_scalar:
  assumes "map_of fm ''model'' = Some v" "hashable v" "\<not> is_PStr v"
  shows "\<exists>r. model_step fm = Inr r \<and> map_of r ''model'' = Some (PStr (''anthropic/'' @ py_str v))"
proof -
  have "model_lookup v = None" using assms(3) by (cases v) simp_all
  moreover have "v \<noteq> PStr ''inherit''" using assms(3) by auto
  ultimately show ?thesis
    using assms py_str_no_slash [of v] by (simp add: model_step_def update_conv')
qed

lemma model_step_unhashable:
  assumes "map_of fm ''model'' = Some v" "\<not> hashable v"
  shows "model_step fm = Inl TypeError"
  using assms by (simp add: model_step_def)


lemma model_step_other:
  "model_step fm = Inr r \<Longrightarrow> k \<noteq> ''model'' \<Longrightarrow> map_of r k = map_of fm k"
  by (auto simp: model_step_def update_conv' split: option.splits if_splits)

lemma tools_step_other: "k \<noteq> ''tools'' \<Longrightarrow> map_of (tools_step r) k = map_of r k"
  by (simp add: tools_step_def update_conv' split: option.splits)

lemma transform_frontmatter_other:
  "transform_frontmatter fm = Inr r \<Longrightarrow> k \<noteq> ''model'' \<Longrightarrow> k \<noteq> ''tools'' \<Longrightarrow> map_of r k = map_of fm k"
  by (auto simp: transform_frontmatter_def tools_step_other dest: model_step_other split: sum.splits)

lemma model_step_total:
  "(\<And>v. map_of fm ''model'' = Some v \<Longrightarrow> hashable v) \<Longrightarrow> \<exists>r. model_step fm = Inr r"
  by (auto simp: model_step_def split: option.splits)

lemma transform_frontmatter_total:
  "(\<And>v. map_of fm ''model'' = Some v \<Longrightarrow> hashable v) \<Longrightarrow> \<exists>r. transform_frontmatter fm = Inr r"
  using model_step_total [of fm] by (auto simp: transform_frontmatter_def)

lemma type_step_type: "map_of (type_step r) ''type'' = None"
  by (simp add: type_step_def Let_def update_conv' delete_conv' split: option.splits)

lemma type_step_mode:
  "map_of (type_step r) ''mode'' =
     (if map_of r ''mode'' = None \<and> map_of r ''type'' = Some (PStr ''subagent'') then Some (PStr ''subagent'')
      else if map_of r ''mode'' = None \<and> map_of r ''type'' = Some (PStr ''primary'') then Some (PStr ''primary'')
      else map_of r ''mode'')"
  by (simp add: type_step_def Let_def update_conv' delete_conv' split: option.splits)

lemma type_step_other:
  "k \<noteq> ''type'' \<Longrightarrow> k \<noteq> ''mode'' \<Longrightarrow> map_of (type_step r) k = map_of r k"
  by (simp add: type_step_def Let_def update_conv' delete_conv' split: option.splits)

text \<open>
  C3.  For a frontmatter whose \<^verbatim>\<open>model\<close> field holds a value that can be looked up (anything
  but a list or a dict, for which the membership test raises \<^verbatim>\<open>TypeError\<close>), the rewrite
  returns a frontmatter in which: a known shorthand is replaced by its entry of the model
  table; a string that is no shorthand, has no \<^verbatim>\<open>/\<close> and is not \<^verbatim>\<open>inherit\<close> gets the
  prefix \<^verbatim>\<open>anthropic/\<close>; a string with a \<^verbatim>\<open>/\<close> is unchanged.  A scalar that is not a
  string becomes \<^verbatim>\<open>anthropic/\<close> followed by its \<^verbatim>\<open>str\<close>.
\<close>

theorem transform_frontmatter_model:
  assumes "map_of frontmatter ''model'' = Some model" and "hashable model"
  shows "\<exists>result. transform_frontmatter frontmatter = Inr result \<and>
     (\<forall>m q. model = PStr m \<and> map_of OPENCODE_MODEL_MAP m = Some q \<longrightarrow>
        map_of result ''model'' = Some (PStr q)) \<and>
     (\<forall>m. model = PStr m \<and> map_of OPENCODE_MODEL_MAP m = None \<and> CHR ''/'' \<notin> set m \<and> m \<noteq> ''inherit'' \<longrightarrow>
        map_of result ''model'' = Some (PStr (''anthropic/'' @ m))) \<and>
     (\<forall>m. model = PStr m \<and> CHR ''/'' \<in> set m \<longrightarrow> map_of result ''model'' = Some (PStr m)) \<and>
     (\<not> is_PStr model \<longrightarrow> map_of result ''model'' = Some (PStr (''anthropic/'' @ py_str model)))"
proof (cases "is_PStr model")
  case True
  then obtain m where m: "model = PStr m" by (cases model) simp_all
  from model_step_string [OF assms(1) [unfolded m]] obtain r where
    r: "model_step frontmatter = Inr r"
       "map_of r ''model'' = Some (PStr (case map_of OPENCODE_MODEL_MAP m of Some q \<Rightarrow> q
         | None \<Rightarrow> if CHR ''/'' \<notin> set m \<and> m \<noteq> ''inherit'' then ''anthropic/'' @ m else m))"
    by blast
  have "transform_frontmatter frontmatter = Inr (tools_step r)"
    by (simp add: transform_frontmatter_def r(1))
  moreover have "map_of (tools_step r) ''model'' = map_of r ''model''"
    by (simp add: tools_step_other)
  ultimately show ?thesis
    using r(2) m model_map_no_slash [of m] by (auto split: option.splits)
next
  case False
  from model_step_scalar [OF assms False] obtain r where
    r: "model_step frontmatter = Inr r" "map_of r ''model'' = Some (PStr (''anthropic/'' @ py_str model))"
    by blast
  have "transform_frontmatter frontmatter = Inr (tools_step r)"
    by (simp add: transform_frontmatter_def r(1))
  moreover have "map_of (tools_step r) ''model'' = map_of r ''model''"
    by (simp add: tools_step_other)
  ultimately show ?thesis
    using r(2) False by auto
qed

lemma model_sonnet: "map_of OPENCODE_MODEL_MAP ''sonnet'' = Some ''anthropic/claude-sonnet-4-5''"
  by (simp add: OPENCODE_MODEL_MAP_def)

lemma model_custom: "map_of OPENCODE_MODEL_MAP ''custom-model'' = None"
  by (simp add: OPENCODE_MODEL_MAP_def)

theorem transform_frontmatter_model_witness:
  "(\<exists>result. transform_frontmatter [(''name'', PStr ''a''), (''model'', PStr ''sonnet'')] = Inr result
       \<and> map_of result ''model'' = Some (PStr ''anthropic/claude-sonnet-4-5''))
   \<and> (\<exists>result. transform_frontmatter [(''model'', PStr ''custom-model'')] = Inr result
       \<and> map_of result ''model'' = Some (PStr ''anthropic/custom-model''))
   \<and> (\<exists>result. transform_frontmatter [(''model'', PStr ''vendor/custom'')] = Inr result
       \<and> map_of result ''model'' = Some (PStr ''vendor/custom''))
   \<and> (\<exists>result. transform_frontmatter [(''model'', PInt 5)] = Inr result
       \<and> map_of result ''model'' = Some (PStr (''anthropic/'' @ py_str (PInt 5))))"
proof (intro conjI)
  show "\<exists>result. transform_frontmatter [(''name'', PStr ''a''), (''model'', PStr ''sonnet'')] = Inr result
       \<and> map_of result ''model'' = Some (PStr ''anthropic/claude-sonnet-4-5'')"
    using transform_frontmatter_model [of "[(''name'', PStr ''a''), (''model'', PStr ''sonnet'')]" "PStr ''sonnet''"]
      model_sonnet by auto
  show "\<exists>result. transform_frontmatter [(''model'', PStr ''custom-model'')] = Inr result
       \<and> map_of result ''model'' = Some (PStr ''anthropic/custom-model'')"
    using transform_frontmatter_model [of "[(''model'', PStr ''custom-model'')]" "PStr ''custom-model''"]
      model_custom by auto
  show "\<exists>result. transform_frontmatter [(''model'', PStr ''vendor/custom'')] = Inr result
       \<and> map_of result ''model'' = Some (PStr ''vendor/custom'')"
    using transform_frontmatter_model [of "[(''model'', PStr ''vendor/custom'')]" "PStr ''vendor/custom''"]
    by auto
  show "\<exists>result. transform_frontmatter [(''model'', PInt 5)] = Inr result
       \<and> map_of result ''model'' = Some (PStr (''anthropic/'' @ py_str (PInt 5)))"
    using transform_frontmatter_model [of "[(''model'', PInt 5)]" "PInt 5"]
    by auto
qed

text \<open>
  C6.  For an agent frontmatter (whose \<^verbatim>\<open>model\<close>, when present, can be looked up), the
  result has no \<^verbatim>\<open>type\<close> field and none of \<^verbatim>\<open>version\<close>, \<^verbatim>\<open>last_updated\<close>,
  \<^verbatim>\<open>changelog\<close>, \<^verbatim>\<open>output_schema\<close>; a \<^verbatim>\<open>type\<close> of \<^verbatim>\<open>subagent\<close> or \<^verbatim>\<open>primary\<close>
  becomes the \<^verbatim>\<open>mode\<close> when no \<^verbatim>\<open>mode\<close> was set; a \<^verbatim>\<open>mode\<close> that was set is kept;
  and no \<^verbatim>\<open>mode\<close> appears otherwise.
\<close>

theorem transform_agent_frontmatter_type_mode:
  assumes "\<forall>model. map_of frontmatter ''model'' = Some model \<longrightarrow> hashable model"
  shows "\<exists>result. transform_agent_frontmatter frontmatter = Inr result \<and>
     map_of result ''type'' = None \<and>
     map_of result ''version'' = None \<and> map_of result ''last_updated'' = None \<and>
     map_of result ''changelog'' = None \<and> map_of result ''output_schema'' = None \<and>
     (map_of frontmatter ''mode'' = None \<and> map_of frontmatter ''type'' = Some (PStr ''subagent'') \<longrightarrow>
        map_of result ''mode'' = Some (PStr ''subagent'')) \<and>
     (map_of frontmatter ''mode'' = None \<and> map_of frontmatter ''type'' = Some (PStr ''primary'') \<longrightarrow>
        map_of result ''mode'' = Some (PStr ''primary'')) \<and>
     (map_of frontmatter ''mode'' \<noteq> None \<longrightarrow> map_of result ''mode'' = map_of frontmatter ''mode'') \<and>
     (map_of frontmatter ''mode'' = None \<and> map_of frontmatter ''type'' \<noteq> Some (PStr ''subagent'')
        \<and> map_of frontmatter ''type'' \<noteq> Some (PStr ''primary'') \<longrightarrow> map_of result ''mode'' = None)"
proof -
  from transform_frontmatter_total [of frontmatter] assms
  obtain r where r: "transform_frontmatter frontmatter = Inr r" by blast
  let ?fields = "[''version'', ''last_updated'', ''changelog'', ''output_schema'']"
  let ?result = "drop_fields ?fields (type_step r)"
  have res: "transform_agent_frontmatter frontmatter = Inr ?result"
    by (simp add: transform_agent_frontmatter_def r)
  have ty: "map_of r ''type'' = map_of frontmatter ''type''"
    and mo: "map_of r ''mode'' = map_of frontmatter ''mode''"
    using transform_frontmatter_other [OF r] by simp_all
  have "map_of ?result ''type'' = None"
    by (simp add: map_of_drop_fields type_step_type)
  moreover have "map_of ?result ''mode'' = map_of (type_step r) ''mode''"
    by (simp add: map_of_drop_fields)
  moreover have "map_of ?result ''version'' = None" "map_of ?result ''last_updated'' = None"
    "map_of ?result ''changelog'' = None" "map_of ?result ''output_schema'' = None"
    by (simp_all add: map_of_drop_fields)
  ultimately show ?thesis
    unfolding res type_step_mode ty mo by auto
qed

theorem transform_agent_frontmatter_type_mode_witness:
  "\<exists>result.
     transform_agent_frontmatter
       [(''name'', PStr ''reviewer''), (''type'', PStr ''subagent''), (''version'', PStr ''1.0'')] = Inr result
     \<and> map_of result ''mode'' = Some (PStr ''subagent'') \<and> map_of result ''type'' = None
     \<and> map_of result ''version'' = None"
  using transform_agent_frontmatter_type_mode
     [of "[(''name'', PStr ''reviewer''), (''type'', PStr ''subagent''), (''version'', PStr ''1.0'')]"]
  by auto

lemma transform_agent_frontmatter_example:
  "transform_agent_frontmatter
     [(''name'', PStr ''reviewer''), (''type'', PStr ''subagent''), (''model'', PStr ''opus''),
      (''version'', PStr ''1.0'')]
   = Inr [(''name'', PStr ''reviewer''), (''model'', PStr ''anthropic/claude-opus-4-5''),
          (''mode'', PStr ''subagent'')]"
  by (simp add: transform_agent_frontmatter_def transform_frontmatter_def model_step_def tools_step_def
        type_step_def drop_fields_def OPENCODE_MODEL_MAP_def)

subsection \<open>The hook rewrite\<close>

lemma str_replace_Cons:
  "old \<noteq> [] \<Longrightarrow> str_replace old new (c # cs) =
     (if prefix old (c # cs) then new @ str_replace old new (drop (length old) (c # cs))
      else c # str_replace old new cs)"
  by simp

lemma str_replace_Nil: "old \<noteq> [] \<Longrightarrow> str_replace old new [] = []"
  by simp

lemma prefix_str_replace:
  "old \<noteq> [] \<Longrightarrow> new \<noteq> [] \<Longrightarrow> hd new \<notin> set q \<Longrightarrow> prefix q (str_replace old new s) \<Longrightarrow> prefix q s"
proof (induction q arbitrary: s)
  case Nil
  show ?case by simp
next
  case (Cons x q)
  from Cons.prems obtain c cs where s: "s = c # cs"
    by (cases s) auto
  show ?case
  proof (cases "prefix old s")
    case True
    with Cons.prems s have "prefix (x # q) (new @ str_replace old new (drop (length old) s))"
      by simp
    with Cons.prems(2,3) have False
      by (cases new) auto
    then show ?thesis ..
  next
    case False
    with Cons.prems s have "prefix (x # q) (c # str_replace old new cs)" by simp
    then have "x = c" "prefix q (str_replace old new cs)" by simp_all
    moreover have "hd new \<notin> set q" using Cons.prems by simp
    ultimately show ?thesis using Cons.IH [of cs] Cons.prems(1,2) s by simp
  qed
qed

text \<open>An occurrence of \<open>q\<close> in the result, when \<open>q\<close> shares no character with \<open>new\<close>,
  is an occurrence in the input at a place where \<open>old\<close> does not start.\<close>

lemma occurrence_str_replace:
  "old \<noteq> [] \<Longrightarrow> new \<noteq> [] \<Longrightarrow> q \<noteq> [] \<Longrightarrow> set q \<inter> set new = {} \<Longrightarrow>
   prefix q (drop i (str_replace old new s)) \<Longrightarrow>
   \<exists>j. prefix q (drop j s) \<and> \<not> prefix old (drop j s)"
proof (induction old new s arbitrary: i rule: str_replace.induct)
  case (1 old new)
  then show ?case by simp
next
  case (2 old new c cs)
  have hdnew: "hd new \<notin> set q" using "2.prems"(2,4) by (cases new) auto
  show ?case
  proof (cases "prefix old (c # cs)")
    case True
    let ?rest = "drop (length old) (c # cs)"
    from True "2.prems" have p: "prefix q (drop i (new @ str_replace old new ?rest))" by simp
    have "length new \<le> i"
    proof (rule ccontr)
      assume "\<not> length new \<le> i"
      then have "drop i new \<noteq> []" by simp
      then obtain y ys where y: "drop i new = y # ys" by (cases "drop i new") auto
      then have "y \<in> set new" by (metis in_set_dropD list.set_intros(1))
      moreover from p y "2.prems"(3) have "y \<in> set q" by (cases q) auto
      ultimately show False using "2.prems"(4) by auto
    qed
    with p have "prefix q (drop (i - length new) (str_replace old new ?rest))" by simp
    from "2.IH"(2) [OF "2.prems"(1) True "2.prems"(1,2,3,4) this]
    obtain j where "prefix q (drop j ?rest)" "\<not> prefix old (drop j ?rest)" by blast
    then have "prefix q (drop (j + length old) (c # cs))" "\<not> prefix old (drop (j + length old) (c # cs))"
      by (simp_all add: add.commute)
    then show ?thesis by blast
  next
    case False
    with "2.prems" have p: "prefix q (drop i (c # str_replace old new cs))" by simp
    show ?thesis
    proof (cases i)
      case 0
      with p have "prefix q (c # str_replace old new cs)" by simp
      with "2.prems"(3) obtain q' where q': "q = c # q'" "prefix q' (str_replace old new cs)"
        by (cases q) auto
      have "prefix q' cs"
        using prefix_str_replace [OF "2.prems"(1,2) _ q'(2)] hdnew q'(1) by simp
      with q'(1) False have "prefix q (drop 0 (c # cs))" "\<not> prefix old (drop 0 (c # cs))" by simp_all
      then show ?thesis by blast
    next
      case (Suc k)
      with p have "prefix q (drop k (str_replace old new cs))" by simp
      from "2.IH"(3) [OF "2.prems"(1) False "2.prems"(1,2,3,4) this]
      obtain j where "prefix q (drop j cs)" "\<not> prefix old (drop j cs)" by blast
      then have "prefix q (drop (Suc j) (c # cs))" "\<not> prefix old (drop (Suc j) (c # cs))" by simp_all
      then show ?thesis by blast
    qed
  qed
qed

lemma sublist_iff_prefix_drop: "sublist q s \<longleftrightarrow> (\<exists>i. prefix q (drop i s))"
proof
  assume "sublist q s"
  then obtain ps ss where "s = ps @ q @ ss" by (auto simp: sublist_def)
  then have "prefix q (drop (length ps) s)" by simp
  then show "\<exists>i. prefix q (drop i s)" ..
next
  assume "\<exists>i. prefix q (drop i s)"
  then obtain i ss where "drop i s = q @ ss" by (auto simp: prefix_def)
  then have "s = take i s @ q @ ss" by (metis append_take_drop_id)
  then show "sublist q s" unfolding sublist_def by blast
qed

lemma no_old_after_replace:
  assumes "old \<noteq> []" "new \<noteq> []" "set old \<inter> set new = {}"
  shows "\<not> sublist old (str_replace old new s)"
proof
  assume "sublist old (str_replace old new s)"
  then obtain i where "prefix old (drop i (str_replace old new s))"
    unfolding sublist_iff_prefix_drop ..
  from occurrence_str_replace [OF assms(1,2,1,3) this] show False by blast
qed

lemma no_new_occurrence:
  assumes "old \<noteq> []" "new \<noteq> []" "q \<noteq> []" "set q \<inter> set new = {}" "\<not> sublist q s"
  shows "\<not> sublist q (str_replace old new s)"
proof
  assume "sublist q (str_replace old new s)"
  then obtain i where "prefix q (drop i (str_replace old new s))"
    unfolding sublist_iff_prefix_drop ..
  from occurrence_str_replace [OF assms(1,2,3,4) this] obtain j where "prefix q (drop j s)" by blast
  with assms(5) show False unfolding sublist_iff_prefix_drop by blast
qed

lemma transform_hook_no_placeholder:
  "\<not> sublist ''${CLAUDE_PLUGIN_ROOT}'' (transform_hook s) \<and> \<not> sublist ''$CLAUDE_PLUGIN_ROOT'' (transform_hook s)"
proof -
  let ?s3 = "str_replace ''${CLAUDE_PLUGIN_ROOT}'' ''~/.config/opencode''
     (str_replace ''$CLAUDE_PLUGIN_ROOT/hooks/'' ''bash ~/.config/opencode/hook/''
     (str_replace ''${CLAUDE_PLUGIN_ROOT}/hooks/'' ''bash ~/.config/opencode/hook/'' s))"
  have t: "transform_hook s = str_replace ''$CLAUDE_PLUGIN_ROOT'' ''~/.config/opencode'' ?s3"
    by (simp add: transform_hook_def)
  have "\<not> sublist ''${CLAUDE_PLUGIN_ROOT}'' ?s3"
    by (rule no_old_after_replace) simp_all
  then have "\<not> sublist ''${CLAUDE_PLUGIN_ROOT}'' (transform_hook s)"
    unfolding t by (rule no_new_occurrence [rotated 4]) simp_all
  moreover have "\<not> sublist ''$CLAUDE_PLUGIN_ROOT'' (transform_hook s)"
    unfolding t by (rule no_old_after_replace) simp_all
  ultimately show ?thesis by simp
qed


lemma str_replace_split:
  "old \<noteq> [] \<Longrightarrow> c \<notin> set (tl old) \<Longrightarrow>
   str_replace old new (x @ c # y) = str_replace old new x @ str_replace old new (c # y)"
proof (induction old new x rule: str_replace.induct)
  case (1 old new)
  then show ?case by simp
next
  case (2 old new d ds)
  note prems = "2.prems" and IH = "2.IH"
  have within: "prefix old (d # ds)" if p: "prefix old ((d # ds) @ c # y)"
  proof -
    have "length old \<le> length (d # ds)"
    proof (rule ccontr)
      assume "\<not> length old \<le> length (d # ds)"
      then have l: "length (d # ds) < length old" by simp
      from p have "old ! length (d # ds) = ((d # ds) @ c # y) ! length (d # ds)"
        using l by (metis prefixE nth_append)
      then have "old ! length (d # ds) = c" by (metis nth_append_length)
      moreover have "old ! length (d # ds) \<in> set (tl old)"
        using l prems(1) by (cases old) auto
      ultimately show False using prems(2) by simp
    qed
    with p show ?thesis by (metis prefix_length_prefix prefixI)
  qed
  show ?case
  proof (cases "prefix old (d # ds)")
    case True
    then have le: "length old \<le> length (d # ds)" by (rule prefix_length_le)
    from True have "prefix old ((d # ds) @ c # y)" by (rule prefix_prefix)
    moreover have "drop (length old) ((d # ds) @ c # y) = drop (length old) (d # ds) @ c # y"
      using le by (subst drop_append) simp
    ultimately have "str_replace old new ((d # ds) @ c # y)
        = new @ str_replace old new (drop (length old) (d # ds) @ c # y)"
      using prems(1) by simp
    also have "\<dots> = new @ str_replace old new (drop (length old) (d # ds)) @ str_replace old new (c # y)"
      using IH(2) [OF prems(1) True prems] by simp
    finally show ?thesis using True prems(1) by simp
  next
    case False
    with within have "\<not> prefix old ((d # ds) @ c # y)" by blast
    then have "str_replace old new ((d # ds) @ c # y) = d # str_replace old new (ds @ c # y)"
      using prems(1) by simp
    then show ?thesis using IH(3) [OF prems(1) False prems] False prems(1) by simp
  qed
qed

lemma str_replace_skip:
  "old \<noteq> [] \<Longrightarrow> hd old \<notin> set p \<Longrightarrow> str_replace old new (p @ y) = p @ str_replace old new y"
proof (induction p)
  case Nil
  show ?case by simp
next
  case (Cons d p)
  then have "\<not> prefix old (d # p @ y)" by (cases old) auto
  with Cons show ?case by simp
qed

lemma str_replace_context:
  assumes "old \<noteq> []" "u \<noteq> []" "hd old \<notin> set u" "hd u \<notin> set (tl old)"
  shows "str_replace old new (x @ u @ y) = str_replace old new x @ u @ str_replace old new y"
proof -
  from assms(2) obtain c u' where u: "u = c # u'" by (cases u) auto
  have "str_replace old new (x @ u @ y) = str_replace old new x @ str_replace old new (u @ y)"
    using str_replace_split [of old c new x "u' @ y"] assms(1,4) u by simp
  then show ?thesis using str_replace_skip [OF assms(1,3)] by simp
qed

lemma str_replace_unchanged:
  "old \<noteq> [] \<Longrightarrow> hd old \<notin> set s \<Longrightarrow> str_replace old new s = s"
  using str_replace_skip [of old s new "[]"] by simp


lemma transform_hook_passes:
  "transform_hook s =
     str_replace ''$CLAUDE_PLUGIN_ROOT'' ''~/.config/opencode''
       (str_replace ''${CLAUDE_PLUGIN_ROOT}'' ''~/.config/opencode''
         (str_replace ''$CLAUDE_PLUGIN_ROOT/hooks/'' ''bash ~/.config/opencode/hook/''
           (str_replace ''${CLAUDE_PLUGIN_ROOT}/hooks/'' ''bash ~/.config/opencode/hook/'' s)))"
  by (simp add: transform_hook_def)

lemma str_replace_hit:
  assumes "old \<noteq> []" "hd old \<notin> set (tl old)"
  shows "str_replace old new (x @ old @ y) = str_replace old new x @ new @ str_replace old new y"
proof -
  from assms(1) obtain c o' where old: "old = c # o'" by (cases old) auto
  have "str_replace old new (x @ c # o' @ y) = str_replace old new x @ str_replace old new (c # o' @ y)"
    using assms old by (intro str_replace_split) simp_all
  moreover have "str_replace old new (c # o' @ y) = new @ str_replace old new y"
    unfolding old by simp
  ultimately show ?thesis by (simp add: old)
qed

lemma str_replace_keep:
  assumes "old \<noteq> []" "c \<notin> set (tl old)" "hd old \<notin> set u" "\<not> prefix old (c # u @ y)"
  shows "str_replace old new (x @ (c # u) @ y) = str_replace old new x @ (c # u) @ str_replace old new y"
proof -
  have "str_replace old new (x @ c # u @ y) = str_replace old new x @ str_replace old new (c # u @ y)"
    using assms(1,2) by (rule str_replace_split)
  moreover have "str_replace old new (c # u @ y) = c # str_replace old new (u @ y)"
    using assms(1,4) by simp
  ultimately show ?thesis
    using str_replace_skip [OF assms(1,3)] by simp
qed

lemma braced_hooks_replaced:
  "transform_hook (a @ ''${CLAUDE_PLUGIN_ROOT}/hooks/'' @ b)
     = transform_hook a @ ''bash ~/.config/opencode/hook/'' @ transform_hook b"
  unfolding transform_hook_passes
  by (subst str_replace_hit, simp, simp)
     ((subst str_replace_context, simp, simp, simp, simp)+, rule refl)

lemma unbraced_hooks_replaced:
  "transform_hook (a @ ''$CLAUDE_PLUGIN_ROOT/hooks/'' @ b)
     = transform_hook a @ ''bash ~/.config/opencode/hook/'' @ transform_hook b"
  unfolding transform_hook_passes
  by (subst str_replace_keep, simp, simp, simp, simp)
     (subst str_replace_hit, simp, simp,
      (subst str_replace_context, simp, simp, simp, simp)+, rule refl)

lemma braced_root_replaced:
  assumes "\<not> prefix ''/hooks/'' b"
  shows "transform_hook (a @ ''${CLAUDE_PLUGIN_ROOT}'' @ b)
     = transform_hook a @ ''~/.config/opencode'' @ transform_hook b"
  unfolding transform_hook_passes
  by (subst str_replace_keep, simp, simp, simp, simp add: assms)
     (subst str_replace_keep, simp, simp, simp, simp,
      subst str_replace_hit, simp, simp,
      subst str_replace_context, simp, simp, simp, simp, rule refl)

lemma unbraced_root_replaced:
  assumes "\<not> prefix ''/hooks/'' b"
  shows "transform_hook (a @ ''$CLAUDE_PLUGIN_ROOT'' @ b)
     = transform_hook a @ ''~/.config/opencode'' @ transform_hook b"
proof -
  have "\<not> prefix ''/hooks/'' (str_replace ''${CLAUDE_PLUGIN_ROOT}/hooks/'' ''bash ~/.config/opencode/hook/'' b)"
    using assms prefix_str_replace [of "''${CLAUDE_PLUGIN_ROOT}/hooks/''" "''bash ~/.config/opencode/hook/''" "''/hooks/''" b]
    by auto
  then show ?thesis
    unfolding transform_hook_passes
    by (subst str_replace_keep, simp, simp, simp, simp)
       (subst str_replace_keep, simp, simp, simp, simp,
        subst str_replace_keep, simp, simp, simp, simp,
        subst str_replace_hit, simp, simp, rule refl)
qed

lemma transform_hook_unchanged: "CHR ''$'' \<notin> set s \<Longrightarrow> transform_hook s = s"
  unfolding transform_hook_passes by (simp add: str_replace_unchanged)

text \<open>
  C4.  \<^verbatim>\<open>transform_hook\<close> is four substitutions in this order: the braced and the unbraced
  placeholder followed by \<^verbatim>\<open>/hooks/\<close> become \<^verbatim>\<open>bash ~/.config/opencode/hook/\<close>, then the
  braced and the unbraced bare placeholder become \<^verbatim>\<open>~/.config/opencode\<close>.  Every occurrence
  of a placeholder with the hooks subdirectory is replaced by the first text at its place, every
  occurrence of a bare placeholder that is not followed by \<^verbatim>\<open>/hooks/\<close> by the second, and
  for every input the output contains neither form of the placeholder.
\<close>

theorem transform_hook_substitutions:
  "transform_hook s =
     str_replace ''$CLAUDE_PLUGIN_ROOT'' ''~/.config/opencode''
       (str_replace ''${CLAUDE_PLUGIN_ROOT}'' ''~/.config/opencode''
         (str_replace ''$CLAUDE_PLUGIN_ROOT/hooks/'' ''bash ~/.config/opencode/hook/''
           (str_replace ''${CLAUDE_PLUGIN_ROOT}/hooks/'' ''bash ~/.config/opencode/hook/'' s)))
   \<and> transform_hook (a @ ''${CLAUDE_PLUGIN_ROOT}/hooks/'' @ b)
        = transform_hook a @ ''bash ~/.config/opencode/hook/'' @ transform_hook b
   \<and> transform_hook (a @ ''$CLAUDE_PLUGIN_ROOT/hooks/'' @ b)
        = transform_hook a @ ''bash ~/.config/opencode/hook/'' @ transform_hook b
   \<and> (\<not> prefix ''/hooks/'' b \<longrightarrow>
        transform_hook (a @ ''${CLAUDE_PLUGIN_ROOT}'' @ b) = transform_hook a @ ''~/.config/opencode'' @ transform_hook b)
   \<and> (\<not> prefix ''/hooks/'' b \<longrightarrow>
        transform_hook (a @ ''$CLAUDE_PLUGIN_ROOT'' @ b) = transform_hook a @ ''~/.config/opencode'' @ transform_hook b)
   \<and> \<not> sublist ''${CLAUDE_PLUGIN_ROOT}'' (transform_hook s)
   \<and> \<not> sublist ''$CLAUDE_PLUGIN_ROOT'' (transform_hook s)"
  using transform_hook_passes [of s] braced_hooks_replaced [of a b] unbraced_hooks_replaced [of a b]
    braced_root_replaced [of b a] unbraced_root_replaced [of b a] transform_hook_no_placeholder [of s]
  by blast

theorem transform_hook_substitutions_witness:
  "\<not> prefix ''/hooks/'' ''/x''
   \<and> transform_hook ''run ${CLAUDE_PLUGIN_ROOT}/x'' = ''run ~/.config/opencode/x''
   \<and> transform_hook ''run $CLAUDE_PLUGIN_ROOT/hooks/a.sh'' = ''run bash ~/.config/opencode/hook/a.sh''"
  using transform_hook_substitutions [of "''run ''" "''run ''" "''/x''"]
    transform_hook_substitutions [of "''run ''" "''run ''" "''a.sh''"]
  by (simp add: transform_hook_unchanged)

subsection \<open>The body rewrite\<close>

lemma is_word_lower_char: "is_word_char (lower_char c) = is_word_char c"
proof -
  have "(of_char c :: nat) < 256" by simp
  then show ?thesis
    unfolding is_word_char_def lower_char_def Let_def
    by auto
qed

lemma space_not_word: "is_space c \<Longrightarrow> \<not> is_word_char c"
  unfolding is_word_char_def is_space_def Let_def by auto

lemma ci_prefix_iff:
  "ci_prefix p s \<longleftrightarrow> length p \<le> length s \<and> lower (take (length p) s) = lower p"
  by (induction p s rule: ci_prefix.induct) (auto simp: lower_def)

lemma spaces_then_iff:
  "spaces_then k rest \<longleftrightarrow> (\<exists>n \<in> {1..length rest}. (\<forall>c \<in> set (take n rest). is_space c) \<and> k (drop n rest))"
proof (induction rest)
  case Nil
  show ?case by simp
next
  case (Cons c cs)
  show ?case (is "?L = ?R")
  proof
    assume ?L
    then have c: "is_space c" and d: "spaces_then k cs \<or> k cs" by simp_all
    from d show ?R
    proof
      assume "spaces_then k cs"
      with Cons obtain n where n: "n \<in> {1..length cs}" "\<forall>c \<in> set (take n cs). is_space c" "k (drop n cs)"
        by blast
      then have "Suc n \<in> {1..length (c # cs)}" "\<forall>x \<in> set (take (Suc n) (c # cs)). is_space x"
        "k (drop (Suc n) (c # cs))" using c by auto
      then show ?R by blast
    next
      assume "k cs"
      then have "1 \<in> {1..length (c # cs)}" "\<forall>x \<in> set (take 1 (c # cs)). is_space x" "k (drop 1 (c # cs))"
        using c by auto
      then show ?R by blast
    qed
  next
    assume ?R
    then obtain n where n: "1 \<le> n" "n \<le> length (c # cs)" "\<forall>x \<in> set (take n (c # cs)). is_space x"
      "k (drop n (c # cs))" by auto
    then obtain m where m: "n = Suc m" by (cases n) auto
    from n m have c: "is_space c" by simp
    show ?L
    proof (cases m)
      case 0
      with n m c show ?thesis by simp
    next
      case (Suc j)
      with n m have "m \<in> {1..length cs}" "\<forall>x \<in> set (take m cs). is_space x" "k (drop m cs)" by auto
      with Cons have "spaces_then k cs" by blast
      with c show ?thesis by simp
    qed
  qed
qed

lemma ci_prefix_iff_lower: "ci_prefix p s \<longleftrightarrow> lower (take (length p) s) = lower p"
proof -
  have "length p \<le> length s" if "lower (take (length p) s) = lower p"
  proof -
    from that have "length (lower (take (length p) s)) = length (lower p)" by simp
    then show ?thesis by (simp add: lower_def)
  qed
  then show ?thesis unfolding ci_prefix_iff by blast
qed

lemma lower_tool: "lower ''tool'' = ''tool''"
  by (simp add: lower_def lower_char_def)

lemma lower_command: "lower ''command'' = ''command''"
  by (simp add: lower_def lower_char_def)

lemma lookahead_iff: "lookahead rest \<longleftrightarrow> keyword_follows rest"
proof -
  have t: "ci_prefix ''tool'' r \<longleftrightarrow> lower (take 4 r) = ''tool''" for r
    unfolding ci_prefix_iff_lower lower_tool by (simp add: eval_nat_numeral)
  have c: "ci_prefix ''command'' r \<longleftrightarrow> lower (take 7 r) = ''command''" for r
    unfolding ci_prefix_iff_lower lower_command by (simp add: eval_nat_numeral)
  show ?thesis
    unfolding lookahead_def keyword_follows_def spaces_then_iff t c by blast
qed

lemma keyword_follows_space:
  "keyword_follows rest \<Longrightarrow> \<exists>c cs. rest = c # cs \<and> is_space c"
  unfolding keyword_follows_def
  by (cases rest) (auto simp: take_Cons' split: if_splits)

text \<open>For a name of word characters the pattern matches exactly at the occurrences.\<close>

lemma tool_match_iff:
  assumes "claude_name \<noteq> []" "\<forall>c \<in> set claude_name. is_word_char c"
  shows "tool_match claude_name prev s \<longleftrightarrow> tool_occurrence claude_name prev s"
proof -
  let ?n = "length claude_name"
  let ?m = "take ?n s" and ?rest = "drop ?n s"
  have word_m: "\<forall>c \<in> set ?m. is_word_char c" if eq: "lower ?m = lower claude_name"
  proof
    fix c assume "c \<in> set ?m"
    then have "lower_char c \<in> set (lower ?m)" by (simp add: lower_def)
    with eq obtain d where "d \<in> set claude_name" "lower_char c = lower_char d"
      by (auto simp: lower_def)
    with assms(2) show "is_word_char c" by (metis is_word_lower_char)
  qed
  have nonempty: "?m \<noteq> []" "s \<noteq> []" if eq: "lower ?m = lower claude_name"
    using eq assms(1) by (auto simp: lower_def)
  show ?thesis
  proof
    assume m: "tool_match claude_name prev s"
    then have eq: "lower ?m = lower claude_name" and len: "?n \<le> length s"
      by (simp_all add: tool_match_def ci_prefix_iff)
    from nonempty [OF eq] obtain c cs where s: "s = c # cs" by (cases s) auto
    have "c \<in> set ?m" using s assms(1) by (cases claude_name) auto
    with word_m [OF eq] have "is_word_char c" by blast
    with m s have "\<not> is_word prev" by (simp add: tool_match_def word_boundary_def)
    with m eq len show "tool_occurrence claude_name prev s"
      by (simp add: tool_occurrence_def tool_match_def lookahead_iff)
  next
    assume o: "tool_occurrence claude_name prev s"
    then have eq: "lower ?m = lower claude_name" and len: "?n \<le> length s"
      and prev: "\<not> is_word prev" and kw: "keyword_follows ?rest"
      by (simp_all add: tool_occurrence_def)
    from nonempty [OF eq] obtain c cs where s: "s = c # cs" by (cases s) auto
    have "c \<in> set ?m" using s assms(1) by (cases claude_name) auto
    with word_m [OF eq] have c: "is_word_char c" by blast
    have "last ?m \<in> set ?m" using nonempty(1) [OF eq] by (rule last_in_set)
    with word_m [OF eq] have l: "is_word_char (last ?m)" by blast
    from keyword_follows_space [OF kw] obtain d ds where d: "?rest = d # ds" "is_space d" by blast
    then have "\<not> is_word_char d" by (simp add: space_not_word)
    with d l nonempty(1) [OF eq] have "word_boundary (final_char prev ?m) (first_char ?rest)"
      by (simp add: word_boundary_def final_char_def)
    moreover have "word_boundary prev (first_char s)"
      using prev c s by (simp add: word_boundary_def)
    ultimately show "tool_match claude_name prev s"
      using eq len kw by (simp add: tool_match_def ci_prefix_iff lookahead_iff)
  qed
qed


lemma ci_prefix_word:
  assumes "ci_prefix p t" "\<forall>c \<in> set p. is_word_char c" "k < length p"
  shows "k < length t \<and> is_word_char (t ! k)"
  using assms
proof (induction p t arbitrary: k rule: ci_prefix.induct)
  case (3 p ps c cs)
  then have c: "is_word_char c" by (metis ci_prefix.simps(3) is_word_lower_char list.set_intros(1))
  show ?case
  proof (cases k)
    case 0
    with c show ?thesis by simp
  next
    case (Suc j)
    with 3 show ?thesis by simp
  qed
qed simp_all

lemma lookahead_space:
  "lookahead rest \<Longrightarrow> 0 < length rest \<and> is_space (rest ! 0)"
  using keyword_follows_space [of rest] by (auto simp: lookahead_iff)

lemma tool_match_space_after:
  assumes "tool_match name p t"
  shows "length name < length t \<and> is_space (t ! length name)"
proof -
  from assms have "lookahead (drop (length name) t)" by (simp add: tool_match_def)
  from lookahead_space [OF this]
  have l: "0 < length (drop (length name) t)" and sp: "is_space (drop (length name) t ! 0)"
    by blast+
  from l have lt: "length name < length t" by simp
  then have "drop (length name) t ! 0 = t ! (length name + 0)"
    by (intro nth_drop) simp
  with sp lt show ?thesis by simp
qed

lemma prev_at_Cons: "prev_at (Some c) cs k = prev_at prev (c # cs) (Suc k)"
  by (cases k) (simp_all add: prev_at_def)

lemma re_sub_tool_unchanged_match:
  "\<forall>i < length s. \<not> tool_match claude_name (prev_at prev s i) (drop i s) \<Longrightarrow>
   re_sub_tool claude_name opencode_name prev s = s"
proof (induction s arbitrary: prev)
  case Nil
  show ?case by simp
next
  case (Cons c cs)
  from Cons.prems have "\<not> tool_match claude_name (prev_at prev (c # cs) 0) (drop 0 (c # cs))" by blast
  then have no: "\<not> tool_match claude_name prev (c # cs)" by (simp add: prev_at_def)
  have "\<forall>i < length cs. \<not> tool_match claude_name (prev_at (Some c) cs i) (drop i cs)"
  proof (intro allI impI)
    fix i assume "i < length cs"
    then have "Suc i < length (c # cs)" by simp
    with Cons.prems have "\<not> tool_match claude_name (prev_at prev (c # cs) (Suc i)) (drop (Suc i) (c # cs))"
      by blast
    then show "\<not> tool_match claude_name (prev_at (Some c) cs i) (drop i cs)"
      by (simp add: prev_at_Cons [of c cs i prev])
  qed
  from Cons.IH [OF this] no show ?case by simp
qed

lemma re_sub_tool_replaces_match:
  "claude_name \<noteq> [] \<Longrightarrow> \<forall>c \<in> set claude_name. is_word_char c \<Longrightarrow>
   tool_match claude_name (prev_at prev s i) (drop i s) \<Longrightarrow>
     \<exists>out. re_sub_tool claude_name opencode_name prev s
        = out @ opencode_name @
          re_sub_tool claude_name opencode_name (Some (s ! (i + length claude_name - 1)))
            (drop (i + length claude_name) s)"
proof (induction claude_name opencode_name prev s arbitrary: i rule: re_sub_tool.induct)
  case (1 claude_name opencode_name prev)
  then show ?case by (cases claude_name) (simp_all add: tool_match_def)
next
  case (2 name repl prev c cs)
  note IH = "2.IH" and m = "2.prems"(3) and assms = "2.prems"(1,2)
  let ?s = "c # cs" and ?n = "length name"
  have n0: "0 < ?n" using assms(1) by simp
  from tool_match_space_after [OF m] have "?n < length (drop i ?s)" by blast
  then have ilen: "i + ?n < length ?s" by (simp only: length_drop less_diff_conv)
  show ?case
  proof (cases "tool_match name prev ?s")
    case True
    from tool_match_space_after [OF True] have sp: "?n < length ?s" "is_space (?s ! ?n)" by simp_all
    have step: "re_sub_tool name repl prev ?s
        = repl @ re_sub_tool name repl (final_char prev (take ?n ?s)) (drop ?n ?s)"
      using True assms(1) by simp
    have fc: "final_char prev (take ?n ?s) = Some (?s ! (?n - 1))"
      using n0 sp(1) by (simp add: final_char_def last_conv_nth min_def)
    consider "i = 0" | "0 < i" "i \<le> ?n" | "?n < i" by linarith
    then show ?thesis
    proof cases
      case 1
      with step fc have "re_sub_tool name repl prev ?s
          = [] @ repl @ re_sub_tool name repl (Some (?s ! (i + ?n - 1))) (drop (i + ?n) ?s)"
        by simp
      then show ?thesis by blast
    next
      case 2
      from m have "ci_prefix name (drop i ?s)" by (simp add: tool_match_def)
      from ci_prefix_word [OF this assms(2), of "?n - i"] 2 n0
      have "is_word_char (drop i ?s ! (?n - i))" by simp
      moreover have "drop i ?s ! (?n - i) = ?s ! ?n"
        using 2 ilen by (subst nth_drop) simp_all
      ultimately show ?thesis using sp(2) space_not_word by metis
    next
      case 3
      let ?j = "i - ?n"
      have j: "0 < ?j" "i = ?n + ?j" using 3 by simp_all
      have pa: "prev_at (final_char prev (take ?n ?s)) (drop ?n ?s) ?j = prev_at prev ?s i"
        using 3 ilen n0 by (simp add: prev_at_def)
      have dr: "drop ?j (drop ?n ?s) = drop i ?s" using 3 by simp
      have "tool_match name (prev_at (final_char prev (take ?n ?s)) (drop ?n ?s) ?j) (drop ?j (drop ?n ?s))"
        unfolding pa dr by (rule m)
      from IH(1) [OF _ assms this] True assms(1)
      obtain out where "re_sub_tool name repl (final_char prev (take ?n ?s)) (drop ?n ?s)
          = out @ repl @ re_sub_tool name repl (Some (drop ?n ?s ! (?j + ?n - 1)))
              (drop (?j + ?n) (drop ?n ?s))" by blast
      moreover have "drop ?n ?s ! (?j + ?n - 1) = ?s ! (i + ?n - 1)"
        using 3 ilen n0 by (subst nth_drop) (simp_all add: add.commute)
      moreover have "drop (?j + ?n) (drop ?n ?s) = drop (i + ?n) ?s"
        using 3 by (simp add: add.commute)
      ultimately have "re_sub_tool name repl prev ?s
          = (repl @ out) @ repl @ re_sub_tool name repl (Some (?s ! (i + ?n - 1))) (drop (i + ?n) ?s)"
        using step by simp
      then show ?thesis by blast
    qed
  next
    case False
    then have step: "re_sub_tool name repl prev ?s = c # re_sub_tool name repl (Some c) cs" by simp
    from False m obtain k where k: "i = Suc k" by (cases i) (auto simp: prev_at_def)
    from m have "tool_match name (prev_at (Some c) cs k) (drop k cs)"
      unfolding k by (simp add: prev_at_Cons [of c cs k prev])
    from IH(2) [OF _ assms this] False
    obtain out where "re_sub_tool name repl (Some c) cs
        = out @ repl @ re_sub_tool name repl (Some (cs ! (k + ?n - 1))) (drop (k + ?n) cs)" by blast
    moreover have "cs ! (k + ?n - 1) = ?s ! (i + ?n - 1)" using k n0 by simp
    ultimately have "re_sub_tool name repl prev ?s
        = (c # out) @ repl @ re_sub_tool name repl (Some (?s ! (i + ?n - 1))) (drop (i + ?n) ?s)"
      using step k by simp
    then show ?thesis by blast
  qed
qed


lemma tool_names_word:
  "(claude_name, opencode_name) \<in> set OPENCODE_TOOL_NAME_MAP \<Longrightarrow>
   claude_name \<noteq> [] \<and> (\<forall>c \<in> set claude_name. is_word_char c)"
  by (auto simp: OPENCODE_TOOL_NAME_MAP_def is_word_char_def)

lemma fold_unchanged:
  "(\<And>n r. (n, r) \<in> set xs \<Longrightarrow> f n r s = s) \<Longrightarrow> fold (\<lambda>(n, r) result. f n r result) xs s = s"
  by (induction xs) auto

lemma literal_word_follows_iff:
  "literal_word_follows rest \<longleftrightarrow>
     spaces_then (\<lambda>r. (prefix ''tool'' r \<and> \<not> is_word (first_char (drop 4 r)))
                     \<or> (prefix ''command'' r \<and> \<not> is_word (first_char (drop 7 r)))) rest"
  unfolding literal_word_follows_def spaces_then_iff by (simp add: add.commute)

lemma normalize_unchanged:
  assumes "\<forall>(n, r) \<in> set OPENCODE_TOOL_NAME_MAP.
             \<forall>j < length s. \<not> tool_occurrence n (prev_at None s j) (drop j s)"
  shows "normalize_tool_references s = s"
  unfolding normalize_tool_references_def
proof (rule fold_unchanged)
  fix n r assume nr: "(n, r) \<in> set OPENCODE_TOOL_NAME_MAP"
  with assms have "\<forall>j < length s. \<not> tool_occurrence n (prev_at None s j) (drop j s)" by blast
  then have "\<forall>j < length s. \<not> tool_match n (prev_at None s j) (drop j s)"
    using tool_match_iff tool_names_word [OF nr] by blast
  then show "re_sub_tool n r None s = s" by (rule re_sub_tool_unchanged_match)
qed

lemma occurrence_at_0: "occurrence_at name prev s 0 = tool_occurrence name prev s"
  by (simp add: occurrence_at_def prev_at_def)

lemma occurrence_at_Suc:
  "occurrence_at name prev (c # cs) (Suc i) = occurrence_at name (Some c) cs i"
  by (simp add: occurrence_at_def prev_at_Cons [of c cs i prev])

lemma occurrence_at_drop:
  assumes "0 < n" "n \<le> length s"
  shows "occurrence_at name prev s (n + k) = occurrence_at name (final_char prev (take n s)) (drop n s) k"
proof -
  have "prev_at prev s (n + k) = prev_at (final_char prev (take n s)) (drop n s) k"
  proof (cases k)
    case 0
    have "take n s \<noteq> []" using assms by auto
    moreover from this have "last (take n s) = take n s ! (length (take n s) - 1)"
      by (rule last_conv_nth)
    moreover have "length (take n s) = n" using assms(2) by simp
    moreover have "take n s ! (n - 1) = s ! (n - 1)" using assms(1) by simp
    ultimately show ?thesis using 0 assms by (simp add: prev_at_def final_char_def)
  next
    case (Suc j)
    have "drop n s ! j = s ! (n + j)" using assms(2) by (rule nth_drop)
    then show ?thesis using Suc by (simp add: prev_at_def)
  qed
  moreover have "drop (n + k) s = drop k (drop n s)" by (simp add: add.commute)
  ultimately show ?thesis by (simp add: occurrence_at_def)
qed

lemma no_overlap:
  assumes "name \<noteq> []" "\<forall>c \<in> set name. is_word_char c"
    and "tool_occurrence name prev s" "0 < i" "i \<le> length name"
  shows "\<not> occurrence_at name prev s i"
proof
  assume "occurrence_at name prev s i"
  then have m: "tool_match name (prev_at prev s i) (drop i s)"
    using tool_match_iff [OF assms(1,2)] by (simp add: occurrence_at_def)
  from assms(3) have "tool_match name prev s" using tool_match_iff [OF assms(1,2)] by simp
  from tool_match_space_after [OF this]
  have sp: "length name < length s" "is_space (s ! length name)" by simp_all
  from m have "ci_prefix name (drop i s)" by (simp add: tool_match_def)
  from ci_prefix_word [OF this assms(2), of "length name - i"] assms(4,5)
  have "is_word_char (drop i s ! (length name - i))" by simp
  moreover have "drop i s ! (length name - i) = s ! (i + (length name - i))"
    using assms(5) sp(1) by (intro nth_drop) simp
  ultimately have "is_word_char (s ! length name)" using assms(5) by simp
  with sp(2) show False using space_not_word by blast
qed

lemma rewritten_Nil: "rewritten name repl prev [] = []"
  by (simp add: rewritten_def)

lemma rewritten_keep:
  assumes "\<not> occurrence_at name prev (c # cs) 0"
  shows "rewritten name repl prev (c # cs) = c # rewritten name repl (Some c) cs"
proof -
  have inside: "inside_occurrence name prev (c # cs) (Suc i) = inside_occurrence name (Some c) cs i" for i
  proof
    assume "inside_occurrence name prev (c # cs) (Suc i)"
    then obtain j where j: "j < Suc i" "Suc i < j + length name" "occurrence_at name prev (c # cs) j"
      by (auto simp: inside_occurrence_def)
    with assms obtain j' where j': "j = Suc j'" by (cases j) auto
    with j have "j' < i" "i < j' + length name" "occurrence_at name (Some c) cs j'"
      by (simp_all add: occurrence_at_Suc)
    then show "inside_occurrence name (Some c) cs i" by (auto simp: inside_occurrence_def)
  next
    assume "inside_occurrence name (Some c) cs i"
    then obtain j' where "j' < i" "i < j' + length name" "occurrence_at name (Some c) cs j'"
      by (auto simp: inside_occurrence_def)
    then have "Suc j' \<in> {0..<Suc i}" "Suc i < Suc j' + length name" "occurrence_at name prev (c # cs) (Suc j')"
      by (simp_all add: occurrence_at_Suc)
    then show "inside_occurrence name prev (c # cs) (Suc i)"
      unfolding inside_occurrence_def by blast
  qed
  have p: "piece name repl prev (c # cs) (Suc i) = piece name repl (Some c) cs i" for i
    by (simp add: piece_def occurrence_at_Suc inside)
  have p0: "piece name repl prev (c # cs) 0 = [c]"
    using assms by (simp add: piece_def inside_occurrence_def)
  have "[0..<Suc (length cs)] = 0 # [Suc 0..<Suc (length cs)]"
    by (rule upt_conv_Cons) simp
  also have "[Suc 0..<Suc (length cs)] = map Suc [0..<length cs]"
    by (rule map_Suc_upt [symmetric])
  finally have "[0..<length (c # cs)] = 0 # map Suc [0..<length cs]" by simp
  then have "rewritten name repl prev (c # cs)
      = piece name repl prev (c # cs) 0 @ concat (map (\<lambda>i. piece name repl prev (c # cs) (Suc i)) [0..<length cs])"
    by (simp add: rewritten_def comp_def)
  then show ?thesis by (simp add: p p0 rewritten_def)
qed

lemma rewritten_hit:
  assumes "0 < length name" "length name \<le> length s" "occurrence_at name prev s 0"
    and "\<forall>i. 0 < i \<and> i \<le> length name \<longrightarrow> \<not> occurrence_at name prev s i"
  shows "rewritten name repl prev s
     = repl @ rewritten name repl (final_char prev (take (length name) s)) (drop (length name) s)"
proof -
  let ?n = "length name"
  let ?p' = "final_char prev (take ?n s)" and ?s' = "drop ?n s"
  have occ: "occurrence_at name prev s (?n + k) = occurrence_at name ?p' ?s' k" for k
    using assms(1,2) by (rule occurrence_at_drop)
  have inside: "inside_occurrence name prev s (?n + k) = inside_occurrence name ?p' ?s' k" for k
  proof
    assume "inside_occurrence name prev s (?n + k)"
    then obtain j where j: "j < ?n + k" "?n + k < j + ?n" "occurrence_at name prev s j"
      by (auto simp: inside_occurrence_def)
    have "?n < j"
    proof (rule ccontr)
      assume "\<not> ?n < j"
      with j(2) have "0 < j" "j \<le> ?n" by simp_all
      with assms(4) j(3) show False by blast
    qed
    then obtain j' where j': "j = ?n + j'" using less_imp_add_positive by blast
    with j have "j' < k" "k < j' + ?n" "occurrence_at name ?p' ?s' j'" by (simp_all add: occ)
    then show "inside_occurrence name ?p' ?s' k" by (auto simp: inside_occurrence_def)
  next
    assume "inside_occurrence name ?p' ?s' k"
    then obtain j' where "j' < k" "k < j' + ?n" "occurrence_at name ?p' ?s' j'"
      by (auto simp: inside_occurrence_def)
    then have "?n + j' \<in> {0..<?n + k}" "?n + k < (?n + j') + ?n" "occurrence_at name prev s (?n + j')"
      by (simp_all add: occ)
    then show "inside_occurrence name prev s (?n + k)"
      unfolding inside_occurrence_def by blast
  qed
  have nth: "s ! (?n + k) = ?s' ! k" for k
    using assms(2) by simp
  have p: "piece name repl prev s (?n + k) = piece name repl ?p' ?s' k" for k
    by (simp add: piece_def occ inside nth)
  have p0: "piece name repl prev s 0 = repl" using assms(3) by (simp add: piece_def)
  have pin: "piece name repl prev s i = []" if "0 < i" "i < ?n" for i
  proof -
    from that assms(4) have "\<not> occurrence_at name prev s i" by simp
    moreover have "inside_occurrence name prev s i"
      unfolding inside_occurrence_def using that assms(3) by auto
    ultimately show ?thesis by (simp add: piece_def)
  qed
  have split: "[0..<length s] = 0 # [Suc 0..<?n] @ map (\<lambda>k. ?n + k) [0..<length s - ?n]"
  proof -
    have "[0..<length s] = [0..<?n] @ [?n..<length s]"
      using assms(2) by (metis le_add_diff_inverse upt_add_eq_append zero_le)
    moreover have "[0..<?n] = 0 # [Suc 0..<?n]" using assms(1) by (simp add: upt_conv_Cons)
    moreover have "[?n..<length s] = map (\<lambda>k. ?n + k) [0..<length s - ?n]"
      using assms(2) map_add_upt [of ?n "length s - ?n"] by (simp add: add.commute)
    ultimately show ?thesis by simp
  qed
  have mid: "concat (map (piece name repl prev s) [Suc 0..<?n]) = []"
    using pin by simp
  have "rewritten name repl prev s
      = piece name repl prev s 0 @ concat (map (piece name repl prev s) [Suc 0..<?n])
        @ concat (map (\<lambda>k. piece name repl prev s (?n + k)) [0..<length s - ?n])"
    unfolding rewritten_def split by (simp add: comp_def)
  then show ?thesis by (simp add: p0 mid p rewritten_def)
qed

lemma re_sub_tool_rewritten:
  "claude_name \<noteq> [] \<Longrightarrow> \<forall>c \<in> set claude_name. is_word_char c \<Longrightarrow>
   re_sub_tool claude_name opencode_name prev s = rewritten claude_name opencode_name prev s"
proof (induction claude_name opencode_name prev s rule: re_sub_tool.induct)
  case (1 claude_name opencode_name prev)
  show ?case by (simp add: rewritten_Nil)
next
  case (2 name repl prev c cs)
  note IH = "2.IH" and w = "2.prems"
  let ?s = "c # cs"
  have iff: "tool_match name p t \<longleftrightarrow> tool_occurrence name p t" for p t
    using w by (intro tool_match_iff)
  show ?case
  proof (cases "tool_match name prev ?s")
    case True
    then have occ: "tool_occurrence name prev ?s" by (simp add: iff)
    from tool_match_space_after [OF True] have len: "length name \<le> length ?s" by simp
    have "re_sub_tool name repl prev ?s
        = repl @ rewritten name repl (final_char prev (take (length name) ?s)) (drop (length name) ?s)"
      using True w(1) IH(1) [OF _ w] by simp
    also have "\<dots> = rewritten name repl prev ?s"
    proof (rule rewritten_hit [symmetric])
      show "0 < length name" using w(1) by simp
      show "length name \<le> length ?s" by (rule len)
      show "occurrence_at name prev ?s 0" using occ by (simp add: occurrence_at_0)
      show "\<forall>i. 0 < i \<and> i \<le> length name \<longrightarrow> \<not> occurrence_at name prev ?s i"
        using no_overlap [OF w occ] by blast
    qed
    finally show ?thesis .
  next
    case False
    then have "\<not> occurrence_at name prev ?s 0" by (simp add: occurrence_at_0 iff)
    from rewritten_keep [OF this] have "rewritten name repl prev ?s = c # rewritten name repl (Some c) cs" .
    moreover have "re_sub_tool name repl prev ?s = c # rewritten name repl (Some c) cs"
      using False IH(2) [OF _ w] by simp
    ultimately show ?thesis by simp
  qed
qed


lemma tool_names_rewritten:
  assumes "(n, r) \<in> set OPENCODE_TOOL_NAME_MAP"
  shows "re_sub_tool n r prev t = rewritten n r prev t"
  using tool_names_word [OF assms] by (intro re_sub_tool_rewritten) simp_all

lemma normalize_rewritten:
  "normalize_tool_references s
     = fold (\<lambda>(n, r) result. rewritten n r None result) OPENCODE_TOOL_NAME_MAP s"
  unfolding normalize_tool_references_def
  by (rule fold_cong) (auto simp: tool_names_rewritten)

lemma re_sub_Bash_example:
  "re_sub_tool ''Bash'' ''bash'' None ''Bash is. Bash tool'' = ''Bash is. bash tool''"
  by code_simp

lemma normalize_Bash_twice:
  "normalize_tool_references ''Bash is. Bash tool'' = ''Bash is. bash tool''"
  by code_simp

lemma normalize_Bash_Tool: "normalize_tool_references ''Bash Tool'' = ''bash Tool''"
  by code_simp

lemma normalize_Bash_toolbox: "normalize_tool_references ''Bash toolbox'' = ''bash toolbox''"
  by code_simp

lemma normalize_Bash_tool: "normalize_tool_references ''Bash tool'' = ''bash tool''"
  by code_simp

lemma normalize_Bash_is: "normalize_tool_references ''Bash is'' = ''Bash is''"
  by code_simp

text \<open>
  C5, as the claim states it, fails: the flag \<^verbatim>\<open>re.IGNORECASE\<close> holds for the lookahead
  too, and the lookahead does not ask for the end of a word.  In \<^verbatim>\<open>Bash Tool\<close> and in
  \<^verbatim>\<open>Bash toolbox\<close> the name is not followed by the word \<^verbatim>\<open>tool\<close> as it is written,
  and it is replaced all the same.
\<close>

theorem tool_keyword_counterexample:
  "normalize_tool_references ''Bash Tool'' = ''bash Tool'' \<and> \<not> literal_word_follows '' Tool''
   \<and> normalize_tool_references ''Bash toolbox'' = ''bash toolbox'' \<and> \<not> literal_word_follows '' toolbox''"
proof -
  have "\<not> literal_word_follows '' Tool''" "\<not> literal_word_follows '' toolbox''"
    unfolding literal_word_follows_iff by code_simp+
  then show ?thesis using normalize_Bash_Tool normalize_Bash_toolbox by simp
qed

text \<open>
  C5, amended.  For every entry of the tool-name table, the pattern matches at a place exactly
  when the name stands there in either case, with no word character before it, followed by one
  or more spaces and then the letters of \<^verbatim>\<open>tool\<close> or \<^verbatim>\<open>command\<close> in either case
  (whatever comes after these letters).  The pass for the entry returns the text in which
  every such occurrence is replaced by the platform name and every other character is kept
  where it is, so a name that is not so followed stays as it is written; in particular a text
  without such an occurrence is returned unchanged.  The whole rewrite is these passes one
  after the other, in the order of the table.
\<close>

theorem normalize_tool_references_occurrences:
  assumes "(claude_name, opencode_name) \<in> set OPENCODE_TOOL_NAME_MAP"
  shows "(tool_match claude_name prev s \<longleftrightarrow> tool_occurrence claude_name prev s)
    \<and> re_sub_tool claude_name opencode_name prev s = rewritten claude_name opencode_name prev s
    \<and> ((\<forall>j < length s. \<not> tool_occurrence claude_name (prev_at prev s j) (drop j s)) \<longrightarrow>
         re_sub_tool claude_name opencode_name prev s = s)
    \<and> ((\<forall>(n, r) \<in> set OPENCODE_TOOL_NAME_MAP.
           \<forall>j < length s. \<not> tool_occurrence n (prev_at None s j) (drop j s)) \<longrightarrow>
         normalize_tool_references s = s)
    \<and> normalize_tool_references s
         = fold (\<lambda>(n, r) result. rewritten n r None result) OPENCODE_TOOL_NAME_MAP s"
proof -
  note w = tool_names_word [OF assms]
  have iff: "tool_match claude_name p t \<longleftrightarrow> tool_occurrence claude_name p t" for p t
    using w by (intro tool_match_iff) simp_all
  have "re_sub_tool claude_name opencode_name prev s = s"
    if "\<forall>j < length s. \<not> tool_occurrence claude_name (prev_at prev s j) (drop j s)"
    using that re_sub_tool_unchanged_match [of s claude_name prev opencode_name]
    unfolding iff by blast
  then show ?thesis
    using iff tool_names_rewritten [OF assms, of prev s] normalize_unchanged [of s]
      normalize_rewritten [of s]
    by blast
qed

theorem normalize_tool_references_occurrences_witness:
  "(''Bash'', ''bash'') \<in> set OPENCODE_TOOL_NAME_MAP
   \<and> rewritten ''Bash'' ''bash'' None ''Bash is. Bash tool'' = ''Bash is. bash tool''"
proof -
  have mem: "(''Bash'', ''bash'') \<in> set OPENCODE_TOOL_NAME_MAP"
    by (simp add: OPENCODE_TOOL_NAME_MAP_def)
  have "re_sub_tool ''Bash'' ''bash'' None ''Bash is. Bash tool''
      = rewritten ''Bash'' ''bash'' None ''Bash is. Bash tool''"
    by (rule normalize_tool_references_occurrences [OF mem, THEN conjunct2, THEN conjunct1])
  then have "rewritten ''Bash'' ''bash'' None ''Bash is. Bash tool'' = ''Bash is. bash tool''"
    by (simp only: re_sub_Bash_example)
  with mem show ?thesis by (rule conjI)
qed

text \<open>
  C2, as the claim states it, fails: a document without metadata goes through
  \<^verbatim>\<open>_normalize_tool_references\<close>, so its body is not always returned unchanged.
\<close>

theorem transform_without_frontmatter_counterexample:
  "transform_skill (\<lambda>document. ([], document)) (\<lambda>frontmatter. []) ''Bash tool'' = Inr ''bash tool''
   \<and> transform_agent (\<lambda>document. ([], document)) (\<lambda>frontmatter. []) ''Bash tool'' = Inr ''bash tool''
   \<and> transform_command (\<lambda>document. ([], document)) (\<lambda>frontmatter. []) ''Bash tool'' = Inr ''bash tool''"
  by (simp add: transform_skill_def transform_agent_def transform_command_def normalize_Bash_tool)

text \<open>
  C2, amended.  For a document without a metadata block, \<^verbatim>\<open>transform_skill\<close>,
  \<^verbatim>\<open>transform_agent\<close> and \<^verbatim>\<open>transform_command\<close> each return the body with its tool
  references rewritten, with no header; the body is returned unchanged when it holds no
  occurrence of a tool name followed by spaces and \<^verbatim>\<open>tool\<close> or \<^verbatim>\<open>command\<close>.
\<close>

theorem transform_without_frontmatter:
  assumes "extract_frontmatter content = ([], body)"
  shows "transform_skill extract_frontmatter create_frontmatter content = Inr (normalize_tool_references body)
    \<and> transform_agent extract_frontmatter create_frontmatter content = Inr (normalize_tool_references body)
    \<and> transform_command extract_frontmatter create_frontmatter content = Inr (normalize_tool_references body)
    \<and> ((\<forall>(n, r) \<in> set OPENCODE_TOOL_NAME_MAP.
           \<forall>j < length body. \<not> tool_occurrence n (prev_at None body j) (drop j body)) \<longrightarrow>
         normalize_tool_references body = body)"
  using assms normalize_unchanged [of body]
  by (simp add: transform_skill_def transform_agent_def transform_command_def)

theorem transform_without_frontmatter_witness:
  "transform_skill (\<lambda>document. ([], document)) (\<lambda>frontmatter. []) ''Bash is'' = Inr ''Bash is''
   \<and> transform_agent (\<lambda>document. ([], document)) (\<lambda>frontmatter. []) ''Bash is'' = Inr ''Bash is''"
  using transform_without_frontmatter [of "\<lambda>document. ([], document)" "''Bash is''" "''Bash is''" "\<lambda>frontmatter. []"]
  by (simp add: normalize_Bash_is)

subsection \<open>The install path\<close>

text \<open>
  C7.  On an adapter that has memoized no path, with the variable \<^verbatim>\<open>OPENCODE_CONFIG_PATH\<close>
  set (to a text that is not empty, which is what \<^verbatim>\<open>if override:\<close> asks): when the parts of
  the resolved home directory do not start the parts of the resolved override, a warning is
  logged and the configured default is returned and memoized; when they do, the resolved
  override is returned and memoized, with no warning.  The test compares whole parts, so
  \<^verbatim>\<open>/home/userX\<close> is outside \<^verbatim>\<open>/home/user\<close>; the home directory itself is inside.
\<close>

theorem get_install_path_override:
  assumes "install_path self = None" "OPENCODE_CONFIG_PATH env = Some override" "override \<noteq> []"
  shows "(\<not> prefix (resolve env (home env)) (resolve env (expanduser env override)) \<longrightarrow>
            get_install_path env self =
              (expanduser env (case config_install_path self of Some t \<Rightarrow> t | None \<Rightarrow> ''~/.config/opencode''),
               self\<lparr>install_path := Some (expanduser env
                  (case config_install_path self of Some t \<Rightarrow> t | None \<Rightarrow> ''~/.config/opencode''))\<rparr>,
               [LogWarning (''OPENCODE_CONFIG_PATH='' @ override @ '' ignored: path must be under home'')]))
       \<and> (prefix (resolve env (home env)) (resolve env (expanduser env override)) \<longrightarrow>
            get_install_path env self =
              (resolve env (expanduser env override),
               self\<lparr>install_path := Some (resolve env (expanduser env override))\<rparr>, []))"
  using assms by (simp add: get_install_path_def relative_to_def Let_def)

lemma get_install_path_memo:
  "install_path self = Some memo \<Longrightarrow> get_install_path env self = (memo, self, [])"
  by (simp add: get_install_path_def)

lemma get_install_path_no_override:
  "install_path self = None \<Longrightarrow> OPENCODE_CONFIG_PATH env = None \<or> OPENCODE_CONFIG_PATH env = Some [] \<Longrightarrow>
   fst (get_install_path env self)
     = expanduser env (case config_install_path self of Some t \<Rightarrow> t | None \<Rightarrow> ''~/.config/opencode'')"
  by (auto simp: get_install_path_def Let_def)

theorem get_install_path_override_witness:
  "fst (get_install_path
     \<lparr>OPENCODE_CONFIG_PATH = Some ''/home/userX/cfg'',
      expanduser = (\<lambda>t. if t = ''/home/userX/cfg'' then [''/'', ''home'', ''userX'', ''cfg'']
                        else [''/'', ''home'', ''user'', ''.config'', ''opencode'']),
      resolve = (\<lambda>p. p), home = [''/'', ''home'', ''user'']\<rparr>
     \<lparr>install_path = None, config_install_path = None\<rparr>)
   = [''/'', ''home'', ''user'', ''.config'', ''opencode'']
   \<and> fst (get_install_path
     \<lparr>OPENCODE_CONFIG_PATH = Some ''/home/user/oc'',
      expanduser = (\<lambda>t. if t = ''/home/user/oc'' then [''/'', ''home'', ''user'', ''oc'']
                        else [''/'', ''home'', ''user'', ''.config'', ''opencode'']),
      resolve = (\<lambda>p. p), home = [''/'', ''home'', ''user'']\<rparr>
     \<lparr>install_path = None, config_install_path = None\<rparr>)
   = [''/'', ''home'', ''user'', ''oc'']"
proof -
  let ?env1 = "\<lparr>OPENCODE_CONFIG_PATH = Some ''/home/userX/cfg'',
      expanduser = (\<lambda>t. if t = ''/home/userX/cfg'' then [''/'', ''home'', ''userX'', ''cfg'']
                        else [''/'', ''home'', ''user'', ''.config'', ''opencode'']),
      resolve = (\<lambda>p. p), home = [''/'', ''home'', ''user'']\<rparr>"
  let ?env2 = "\<lparr>OPENCODE_CONFIG_PATH = Some ''/home/user/oc'',
      expanduser = (\<lambda>t. if t = ''/home/user/oc'' then [''/'', ''home'', ''user'', ''oc'']
                        else [''/'', ''home'', ''user'', ''.config'', ''opencode'']),
      resolve = (\<lambda>p. p), home = [''/'', ''home'', ''user'']\<rparr>"
  let ?self = "\<lparr>install_path = None, config_install_path = None\<rparr>"
  have "fst (get_install_path ?env1 ?self) = [''/'', ''home'', ''user'', ''.config'', ''opencode'']"
    using get_install_path_override [of ?self ?env1 "''/home/userX/cfg''"] by simp
  moreover have "fst (get_install_path ?env2 ?self) = [''/'', ''home'', ''user'', ''oc'']"
    using get_install_path_override [of ?self ?env2 "''/home/user/oc''"] by simp
  ultimately show ?thesis by (rule conjI)
qed

subsection \<open>The merge of hook configurations\<close>

lemma all_lists_lookup:
  "all_lists h \<Longrightarrow> map_of h e = Some v \<Longrightarrow> \<exists>xs. v = JList xs"
  unfolding all_lists_def list_all_iff
  by (auto dest!: map_of_SomeD split: json.splits)

lemma set_update_subset: "set (AList.update k v al) \<subseteq> insert (k, v) (set al)"
  by (induction al) auto

lemma all_lists_update: "all_lists h \<Longrightarrow> all_lists (AList.update e (JList xs) h)"
  unfolding all_lists_def list_all_iff using set_update_subset [of e "JList xs" h] by auto

lemma entries_of_update:
  "entries_of (AList.update e (JList xs) h) x = (if x = e then xs else entries_of h x)"
  by (simp add: entries_of_def update_conv')

lemma entries_of_absent: "e \<notin> fst ` set evs \<Longrightarrow> entries_of evs e = []"
  by (simp add: entries_of_def map_of_eq_None_iff [THEN iffD2])

lemma entries_of_Cons:
  "entries_of ((e, JList M) # evs) x = (if x = e then M else entries_of evs x)"
  by (simp add: entries_of_def)

lemma merge_event_lists:
  assumes "map_of cfg ''hooks'' = Some (JDict h)" "all_lists h"
  shows "merge_event (JDict cfg) (e, JList M)
     = Inr (JDict (AList.update ''hooks'' (JDict (AList.update e (JList (entries_of h e @ M)) h)) cfg))"
proof (cases "map_of h e")
  case None
  then have "e \<notin> fst ` set h" by (simp add: map_of_eq_None_iff)
  with None assms(1) show ?thesis
    by (simp add: merge_event_def entries_of_def update_conv')
next
  case (Some v)
  then have in_h: "e \<in> fst ` set h" by (metis map_of_eq_None_iff option.distinct(1))
  from all_lists_lookup [OF assms(2) Some] obtain L where "v = JList L" by blast
  with Some in_h assms(1) show ?thesis
    by (simp add: merge_event_def entries_of_def)
qed

lemma merge_loop_lists:
  "map_of cfg ''hooks'' = Some (JDict h) \<Longrightarrow> all_lists h \<Longrightarrow> distinct (map fst evs) \<Longrightarrow> all_lists evs \<Longrightarrow>
   \<exists>cfg' h'. merge_loop evs (JDict cfg) = Inr (JDict cfg')
      \<and> map_of cfg' ''hooks'' = Some (JDict h')
      \<and> (\<forall>k. k \<noteq> ''hooks'' \<longrightarrow> map_of cfg' k = map_of cfg k)
      \<and> (\<forall>e. entries_of h' e = entries_of h e @ entries_of evs e)
      \<and> fst ` set h' = fst ` set h \<union> fst ` set evs
      \<and> all_lists h'"
proof (induction evs arbitrary: cfg h)
  case Nil
  then show ?case by (simp add: entries_of_def)
next
  case (Cons ev evs)
  obtain e v where ev: "ev = (e, v)" by (cases ev)
  from Cons.prems(4) ev obtain M where v: "v = JList M"
    by (auto simp: all_lists_def split: json.splits)
  let ?h1 = "AList.update e (JList (entries_of h e @ M)) h"
  let ?cfg1 = "AList.update ''hooks'' (JDict ?h1) cfg"
  have step: "merge_event (JDict cfg) ev = Inr (JDict ?cfg1)"
    unfolding ev v by (rule merge_event_lists [OF Cons.prems(1,2)])
  have 1: "map_of ?cfg1 ''hooks'' = Some (JDict ?h1)" by (simp add: update_conv')
  have 2: "all_lists ?h1" using Cons.prems(2) by (rule all_lists_update)
  have 3: "distinct (map fst evs)" "all_lists evs" "e \<notin> fst ` set evs"
    using Cons.prems(3,4) ev by (auto simp: all_lists_def)
  from Cons.IH [OF 1 2 3(1,2)] obtain cfg' h' where r:
    "merge_loop evs (JDict ?cfg1) = Inr (JDict cfg')"
    "map_of cfg' ''hooks'' = Some (JDict h')"
    "\<forall>k. k \<noteq> ''hooks'' \<longrightarrow> map_of cfg' k = map_of ?cfg1 k"
    "\<forall>x. entries_of h' x = entries_of ?h1 x @ entries_of evs x"
    "fst ` set h' = fst ` set ?h1 \<union> fst ` set evs"
    "all_lists h'" by blast
  have "merge_loop (ev # evs) (JDict cfg) = Inr (JDict cfg')" using step r(1) by simp
  moreover have "\<forall>k. k \<noteq> ''hooks'' \<longrightarrow> map_of cfg' k = map_of cfg k"
    using r(3) by (simp add: update_conv')
  moreover have "entries_of h' x = entries_of h x @ entries_of (ev # evs) x" for x
  proof (cases "x = e")
    case True
    then show ?thesis
      using r(4) entries_of_absent [OF 3(3)] by (simp add: entries_of_update ev v entries_of_Cons)
  next
    case False
    then show ?thesis
      using r(4) by (simp add: entries_of_update ev v entries_of_Cons)
  qed
  moreover have "fst ` set h' = fst ` set h \<union> fst ` set (ev # evs)"
    using r(5) by (auto simp: dom_update ev)
  ultimately show ?case using r(2,6) by blast
qed


lemma ensure_hooks_dict:
  assumes "hooks_of cfg = Some h"
  shows "\<exists>cfg0. ensure_hooks (JDict cfg) = Inr (JDict cfg0) \<and> map_of cfg0 ''hooks'' = Some (JDict h)
           \<and> (\<forall>k. k \<noteq> ''hooks'' \<longrightarrow> map_of cfg0 k = map_of cfg k)"
proof (cases "map_of cfg ''hooks''")
  case None
  then have "''hooks'' \<notin> fst ` set cfg" by (simp add: map_of_eq_None_iff)
  with None assms show ?thesis
    by (simp add: ensure_hooks_def hooks_of_def update_conv')
next
  case (Some v)
  then have "''hooks'' \<in> fst ` set cfg" by (metis map_of_eq_None_iff option.distinct(1))
  with Some assms show ?thesis
    by (simp add: ensure_hooks_def hooks_of_def split: json.splits)
qed

lemma merge_hooks_incoming:
  assumes "incoming hooks_config = Some evs"
  shows "merge_hooks existing_config hooks_config =
     (case ensure_hooks existing_config of Inl e \<Rightarrow> Inl e | Inr c \<Rightarrow> merge_loop evs c)"
  using assms by (auto simp: merge_hooks_def incoming_def split: option.splits json.splits sum.splits)

lemma merge_hooks_lists:
  assumes "hooks_of cfg = Some h" "all_lists h"
    and "incoming hooks_config = Some evs" "distinct (map fst evs)" "all_lists evs"
  shows "\<exists>cfg' h'. merge_hooks (JDict cfg) hooks_config = Inr (JDict cfg')
      \<and> map_of cfg' ''hooks'' = Some (JDict h')
      \<and> (\<forall>k. k \<noteq> ''hooks'' \<longrightarrow> map_of cfg' k = map_of cfg k)
      \<and> (\<forall>e. entries_of h' e = entries_of h e @ entries_of evs e)
      \<and> fst ` set h' = fst ` set h \<union> fst ` set evs
      \<and> all_lists h'"
proof -
  from ensure_hooks_dict [OF assms(1)] obtain cfg0 where c0:
    "ensure_hooks (JDict cfg) = Inr (JDict cfg0)" "map_of cfg0 ''hooks'' = Some (JDict h)"
    "\<forall>k. k \<noteq> ''hooks'' \<longrightarrow> map_of cfg0 k = map_of cfg k" by blast
  from merge_loop_lists [OF c0(2) assms(2,4,5)] obtain cfg' h' where r:
    "merge_loop evs (JDict cfg0) = Inr (JDict cfg')"
    "map_of cfg' ''hooks'' = Some (JDict h')"
    "\<forall>k. k \<noteq> ''hooks'' \<longrightarrow> map_of cfg' k = map_of cfg0 k"
    "\<forall>e. entries_of h' e = entries_of h e @ entries_of evs e"
    "fst ` set h' = fst ` set h \<union> fst ` set evs"
    "all_lists h'" by blast
  have "merge_hooks (JDict cfg) hooks_config = Inr (JDict cfg')"
    by (simp add: merge_hooks_incoming [OF assms(3)] c0(1) r(1))
  moreover have "\<forall>k. k \<noteq> ''hooks'' \<longrightarrow> map_of cfg' k = map_of cfg k"
    using r(3) c0(3) by simp
  ultimately show ?thesis using r(2,4,5,6) by blast
qed

lemma merge_example_wrapped:
  "merge_hooks (JDict [(''hooks'', JDict [(''PreToolUse'', JList [Y])])])
     [(''hooks'', JDict [(''PreToolUse'', JList [X])])]
   = Inr (JDict [(''hooks'', JDict [(''PreToolUse'', JList [Y, X])])])"
  by (simp add: merge_hooks_def ensure_hooks_def merge_event_def)

lemma merge_example_bare:
  "merge_hooks (JDict [(''hooks'', JDict [(''PreToolUse'', JList [Y])])])
     [(''PreToolUse'', JList [X])]
   = Inr (JDict [(''hooks'', JDict [(''PreToolUse'', JList [Y, X])])])"
  by (simp add: merge_hooks_def ensure_hooks_def merge_event_def)

lemma merge_example_twice:
  "merge_hooks (JDict [(''hooks'', JDict [(''PreToolUse'', JList [X])])])
     [(''hooks'', JDict [(''PreToolUse'', JList [X])])]
   = Inr (JDict [(''hooks'', JDict [(''PreToolUse'', JList [X, X])])])"
  by (simp add: merge_hooks_def ensure_hooks_def merge_event_def)

text \<open>
  C8.  Let the existing configuration be an object whose \<^verbatim>\<open>hooks\<close> entry is absent or a
  mapping from event names to lists, and let the incoming configuration, wrapped in a
  \<^verbatim>\<open>hooks\<close> key or bare, map distinct event names to lists.  Then the merge returns the
  configuration with every other key as it was and a \<^verbatim>\<open>hooks\<close> mapping in which each event
  holds its existing entries followed by the incoming ones (an absent list counts as empty,
  and is created); nothing is removed and nothing is deduplicated.  When the file holds this
  configuration and the write succeeds, the file holds the merged configuration afterwards
  and the result is true.  Merging \<^verbatim>\<open>{"hooks": {"PreToolUse": [X]}}\<close> into
  \<^verbatim>\<open>{"hooks": {"PreToolUse": [Y]}}\<close> gives \<^verbatim>\<open>{"hooks": {"PreToolUse": [Y, X]}}\<close>.
\<close>

theorem merge_hooks_to_config_appends:
  assumes "hooks_of cfg = Some h" "all_lists h"
    and "incoming hooks_config = Some evs" "distinct (map fst evs)" "all_lists evs"
  shows "\<exists>cfg' h'. merge_hooks (JDict cfg) hooks_config = Inr (JDict cfg')
      \<and> map_of cfg' ''hooks'' = Some (JDict h')
      \<and> (\<forall>k. k \<noteq> ''hooks'' \<longrightarrow> map_of cfg' k = map_of cfg k)
      \<and> (\<forall>event_name. entries_of h' event_name = entries_of h event_name @ entries_of evs event_name)
      \<and> fst ` set h' = fst ` set h \<union> fst ` set evs
      \<and> all_lists h'
      \<and> (config_file w = Content content \<and> strip (clean_content content) \<noteq> []
           \<and> json_loads (clean_content content) = Some (JDict cfg) \<and> write_attempt w = Written \<longrightarrow>
         merge_hooks_to_config json_loads json_dumps w hooks_config False
           = (Inr True, w\<lparr>config_file := Content (json_dumps (JDict cfg'))\<rparr>, []))
      \<and> merge_hooks (JDict [(''hooks'', JDict [(''PreToolUse'', JList [Y])])])
           [(''hooks'', JDict [(''PreToolUse'', JList [X])])]
         = Inr (JDict [(''hooks'', JDict [(''PreToolUse'', JList [Y, X])])])"
proof -
  from merge_hooks_lists [OF assms] obtain cfg' h' where r:
    "merge_hooks (JDict cfg) hooks_config = Inr (JDict cfg')"
    "map_of cfg' ''hooks'' = Some (JDict h')"
    "\<forall>k. k \<noteq> ''hooks'' \<longrightarrow> map_of cfg' k = map_of cfg k"
    "\<forall>e. entries_of h' e = entries_of h e @ entries_of evs e"
    "fst ` set h' = fst ` set h \<union> fst ` set evs"
    "all_lists h'" by blast
  have "merge_hooks_to_config json_loads json_dumps w hooks_config False
           = (Inr True, w\<lparr>config_file := Content (json_dumps (JDict cfg'))\<rparr>, [])"
    if "config_file w = Content content" "strip (clean_content content) \<noteq> []"
       "json_loads (clean_content content) = Some (JDict cfg)" "write_attempt w = Written"
    using that r(1) by (simp add: merge_hooks_to_config_def read_existing_def)
  with r merge_example_wrapped [of Y X] show ?thesis by blast
qed


theorem merge_hooks_to_config_appends_witness:
  "\<exists>cfg' h'. merge_hooks (JDict [(''theme'', JStr ''dark''), (''hooks'', JDict [(''PreToolUse'', JList [JStr ''Y''])])])
        [(''PreToolUse'', JList [JStr ''X'']), (''Stop'', JList [JStr ''Z''])] = Inr (JDict cfg')
     \<and> map_of cfg' ''hooks'' = Some (JDict h')
     \<and> map_of cfg' ''theme'' = Some (JStr ''dark'')
     \<and> entries_of h' ''PreToolUse'' = [JStr ''Y'', JStr ''X'']
     \<and> entries_of h' ''Stop'' = [JStr ''Z'']"
proof -
  let ?h = "[(''PreToolUse'', JList [JStr ''Y''])]"
  let ?cfg = "[(''theme'', JStr ''dark''), (''hooks'', JDict ?h)]"
  let ?evs = "[(''PreToolUse'', JList [JStr ''X'']), (''Stop'', JList [JStr ''Z''])]"
  have a1: "hooks_of ?cfg = Some ?h" by (simp add: hooks_of_def)
  have a2: "all_lists ?h" by (simp add: all_lists_def)
  have a3: "incoming ?evs = Some ?evs" by (simp add: incoming_def)
  have a4: "distinct (map fst ?evs)" by simp
  have a5: "all_lists ?evs" by (simp add: all_lists_def)
  note t = merge_hooks_to_config_appends [OF a1 a2 a3 a4 a5,
      where w = "\<lparr>config_file = Missing, write_attempt = Written\<rparr>" and content = "[]"
        and json_loads = "\<lambda>text. None" and json_dumps = "\<lambda>v. []" and X = JNull and Y = JNull]
  from t obtain cfg' h' where r:
    "merge_hooks (JDict ?cfg) ?evs = Inr (JDict cfg')"
    "map_of cfg' ''hooks'' = Some (JDict h')"
    "\<forall>k. k \<noteq> ''hooks'' \<longrightarrow> map_of cfg' k = map_of ?cfg k"
    "\<forall>e. entries_of h' e = entries_of ?h e @ entries_of ?evs e"
    by (elim exE conjE) (rule that, assumption+)
  from r(3) have "map_of cfg' ''theme'' = Some (JStr ''dark'')" by simp
  moreover from r(4) have "entries_of h' ''PreToolUse'' = [JStr ''Y'', JStr ''X'']"
    "entries_of h' ''Stop'' = [JStr ''Z'']"
    by (simp_all add: entries_of_def)
  ultimately show ?thesis using r(1,2) by (intro exI conjI)
qed

lemma read_existing_failed:
  "read_failed json_loads f \<Longrightarrow>
   read_existing json_loads f = (JDict [], [LogWarning ''Failed to read opencode.json''])"
  by (cases f) (simp_all add: read_existing_def)

lemma read_existing_missing: "read_existing json_loads Missing = (JDict [], [])"
  by (simp add: read_existing_def)

lemma merge_hooks_to_config_result:
  "fst (merge_hooks_to_config json_loads json_dumps w hooks_config dry_run) =
     (case merge_hooks (fst (read_existing json_loads (config_file w))) hooks_config of
        Inl e \<Rightarrow> Inl e
      | Inr merged \<Rightarrow> Inr (dry_run \<or> write_attempt w = Written))"
  by (auto simp: merge_hooks_to_config_def split: prod.splits sum.splits write_outcome.splits)

text \<open>
  C9, as the claim states it, fails: when the file cannot be read, or its text cannot be
  parsed, the failure is logged and the merge goes on from an empty configuration; the
  result is true, not false.
\<close>

theorem read_failure_counterexample:
  "fst (merge_hooks_to_config (\<lambda>text. None) (\<lambda>v. [])
          \<lparr>config_file = Unreadable, write_attempt = Written\<rparr> [] False) = Inr True
   \<and> fst (merge_hooks_to_config (\<lambda>text. None) (\<lambda>v. [])
          \<lparr>config_file = Content ''{'', write_attempt = Written\<rparr> [] True) = Inr True
   \<and> read_failed (\<lambda>text. None) Unreadable \<and> read_failed (\<lambda>text. None) (Content ''{'')"
proof -
  have "strip (clean_content ''{'') \<noteq> []" by code_simp
  then show ?thesis
    by (simp add: merge_hooks_to_config_def read_existing_def merge_hooks_def ensure_hooks_def)
qed

text \<open>
  C9, amended.  A failure to read or parse the file is caught and logged as a warning, and the
  merge goes on from an empty configuration: the result is the one for a missing file, which
  for an incoming configuration of lists is true when \<^verbatim>\<open>dry_run\<close> is set or the write
  succeeds.  A failure to write is caught, logged as an error and reported as false.  Neither
  is raised to the caller: the function raises only what the merge of the two structures
  itself raises.
\<close>

theorem merge_hooks_to_config_failures:
  "(read_failed json_loads (config_file w) \<longrightarrow>
      read_existing json_loads (config_file w) = (JDict [], [LogWarning ''Failed to read opencode.json''])
      \<and> fst (merge_hooks_to_config json_loads json_dumps w hooks_config dry_run)
          = fst (merge_hooks_to_config json_loads json_dumps (w\<lparr>config_file := Missing\<rparr>) hooks_config dry_run)
      \<and> (incoming hooks_config = Some evs \<and> distinct (map fst evs) \<and> all_lists evs \<longrightarrow>
          fst (merge_hooks_to_config json_loads json_dumps w hooks_config dry_run)
            = Inr (dry_run \<or> write_attempt w = Written)))
   \<and> (merge_hooks (fst (read_existing json_loads (config_file w))) hooks_config = Inr merged
        \<and> \<not> dry_run \<and> write_attempt w = WriteFailed left \<longrightarrow>
      merge_hooks_to_config json_loads json_dumps w hooks_config dry_run
        = (Inr False, w\<lparr>config_file := left\<rparr>,
           snd (read_existing json_loads (config_file w)) @ [LogError ''Failed to write opencode.json'']))
   \<and> (fst (merge_hooks_to_config json_loads json_dumps w hooks_config dry_run) = Inl e
        \<longleftrightarrow> merge_hooks (fst (read_existing json_loads (config_file w))) hooks_config = Inl e)"
proof (intro conjI impI)
  assume rf: "read_failed json_loads (config_file w)"
  show re: "read_existing json_loads (config_file w) = (JDict [], [LogWarning ''Failed to read opencode.json''])"
    using rf by (rule read_existing_failed)
  show "fst (merge_hooks_to_config json_loads json_dumps w hooks_config dry_run)
          = fst (merge_hooks_to_config json_loads json_dumps (w\<lparr>config_file := Missing\<rparr>) hooks_config dry_run)"
    unfolding merge_hooks_to_config_result by (simp add: re read_existing_missing split: sum.splits)
  assume "incoming hooks_config = Some evs \<and> distinct (map fst evs) \<and> all_lists evs"
  then have ev: "incoming hooks_config = Some evs" "distinct (map fst evs)" "all_lists evs" by simp_all
  have "hooks_of [] = Some []" "all_lists []" by (simp_all add: hooks_of_def all_lists_def)
  from merge_hooks_lists [OF this ev] obtain cfg' where "merge_hooks (JDict []) hooks_config = Inr (JDict cfg')"
    by blast
  then show "fst (merge_hooks_to_config json_loads json_dumps w hooks_config dry_run)
            = Inr (dry_run \<or> write_attempt w = Written)"
    unfolding merge_hooks_to_config_result by (simp add: re)
next
  assume "merge_hooks (fst (read_existing json_loads (config_file w))) hooks_config = Inr merged
        \<and> \<not> dry_run \<and> write_attempt w = WriteFailed left"
  then show "merge_hooks_to_config json_loads json_dumps w hooks_config dry_run
        = (Inr False, w\<lparr>config_file := left\<rparr>,
           snd (read_existing json_loads (config_file w)) @ [LogError ''Failed to write opencode.json''])"
    by (auto simp: merge_hooks_to_config_def split: prod.splits)
next
  show "fst (merge_hooks_to_config json_loads json_dumps w hooks_config dry_run) = Inl e
        \<longleftrightarrow> merge_hooks (fst (read_existing json_loads (config_file w))) hooks_config = Inl e"
    unfolding merge_hooks_to_config_result by (auto split: sum.splits)
qed

theorem merge_hooks_to_config_failures_witness:
  "read_failed (\<lambda>text. None) Unreadable
   \<and> merge_hooks_to_config (\<lambda>text. None) (\<lambda>v. ''{}'')
        \<lparr>config_file = Unreadable, write_attempt = WriteFailed Missing\<rparr> [(''Stop'', JList [JStr ''Z''])] False
       = (Inr False, \<lparr>config_file = Missing, write_attempt = WriteFailed Missing\<rparr>,
          [LogWarning ''Failed to read opencode.json'', LogError ''Failed to write opencode.json''])"
proof -
  let ?jl = "\<lambda>text :: string. None :: json option" and ?jd = "\<lambda>v :: json. ''{}''"
  let ?hc = "[(''Stop'', JList [JStr ''Z''])]"
  let ?w1 = "\<lparr>config_file = Unreadable, write_attempt = WriteFailed Missing\<rparr>"
  let ?m = "JDict [(''hooks'', JDict [(''Stop'', JList [JStr ''Z''])])]"
  have rf: "read_failed ?jl Unreadable" by simp
  have re: "read_existing ?jl (config_file ?w1) = (JDict [], [LogWarning ''Failed to read opencode.json''])"
    by (simp add: read_existing_def)
  have m: "merge_hooks (JDict []) ?hc = Inr ?m"
    by (simp add: merge_hooks_def ensure_hooks_def merge_event_def)
  have a: "merge_hooks (fst (read_existing ?jl (config_file ?w1))) ?hc = Inr ?m
        \<and> \<not> False \<and> write_attempt ?w1 = WriteFailed Missing"
    unfolding re using m by simp
  have "merge_hooks_to_config ?jl ?jd ?w1 ?hc False
       = (Inr False, ?w1\<lparr>config_file := Missing\<rparr>,
          snd (read_existing ?jl (config_file ?w1)) @ [LogError ''Failed to write opencode.json''])"
    by (rule merge_hooks_to_config_failures [THEN conjunct2, THEN conjunct1, rule_format, OF a])
  then have "merge_hooks_to_config ?jl ?jd ?w1 ?hc False
       = (Inr False, \<lparr>config_file = Missing, write_attempt = WriteFailed Missing\<rparr>,
          [LogWarning ''Failed to read opencode.json'', LogError ''Failed to write opencode.json''])"
    unfolding re by simp
  with rf show ?thesis by (rule conjI)
qed

end
